theory Spec2Isabelle
  imports Main "HOL-Library.Word"
begin

unbundle bit_operations_syntax

section \<open>Bytes, pointers and the conversion tables\<close>

text \<open>
  A byte is a \<^typ>\<open>char\<close>. The source compares bytes with character literals only, so the
  model does the same. \<open>NL\<close> is the line feed, \<open>CR\<close> the carriage return, \<open>NUL\<close> the zero
  byte and \<open>SUB\<close> the DOS end-of-file mark \<open>0x1a\<close>.
\<close>

abbreviation NL :: char where "NL \<equiv> CHR 0x0A"
abbreviation CR :: char where "CR \<equiv> CHR 0x0D"
abbreviation NUL :: char where "NUL \<equiv> CHR 0x00"
abbreviation SUB :: char where "SUB \<equiv> CHR 0x1A"

text \<open>
  The input buffer of a reader: \<open>validBytes\<close> bytes. The source reads one byte past the
  valid ones in \<open>skipPartialRecord\<close> and \<open>getReadFromBuffer\<close> and says why it may
  ("We don't have to check for end-of-buffer because we know there's a null there"), so
  a read at or past the end of the list yields \<open>NUL\<close>.
\<close>

definition byteAt :: "char list \<Rightarrow> nat \<Rightarrow> char" where
  "byteAt buf i = (if i < length buf then buf ! i else NUL)"

text \<open>
  A \<open>char *\<close> of a Read points either into memory the caller owns (\<open>Ext a\<close>, the address
  \<open>a\<close>) or into the Read's own \<open>localBuffer\<close> (\<open>Loc i\<close> is \<open>localBuffer + i\<close>). The null
  pointer is the caller address 0.
\<close>

datatype ptr = Ext nat | Loc nat

abbreviation NULL :: ptr where "NULL \<equiv> Ext 0"

fun ptrAdd :: "ptr \<Rightarrow> nat \<Rightarrow> ptr" where
  "ptrAdd (Ext a) n = Ext (a + n)"
| "ptrAdd (Loc i) n = Loc (i + n)"

text \<open>
  \<open>Tables.h\<close> is not part of the sources at hand. Its three byte-indexed tables that
  \<open>Read\<close> uses are parameters of the model: every theorem below holds whatever they
  contain.
\<close>

record tables =
  IS_LOWER_CASE :: "char \<Rightarrow> 32 word"
  TO_UPPER_CASE :: "char \<Rightarrow> char"
  COMPLEMENT :: "char \<Rightarrow> char"

section \<open>Read (Read.h)\<close>

datatype ReadClippingType = NoClipping | ClipFront | ClipBack | ClipFrontAndBack

datatype Direction = FORWARD | RC

text \<open>
  Things that stop a computation: the diagnostics before \<open>soft_exit(1)\<close> in \<open>FASTQ.cpp\<close>,
  and the pointer \<open>NULL + 1\<close> that \<open>skipPartialRecord\<close> builds when the buffer holds no
  line feed.
\<close>

datatype failure =
    NoNewlineAtEOF
  | RecordLargerThanBuffer
  | BlankLine
  | InvalidStartingCharacter
  | IdNotPaired
  | ChunkEndsWithFirstHalf
  | FirstOfPairNotSlash1
  | FirstReadNotSlash1
  | SecondReadNotSlash2
  | FilesDontMatch
  | WildPointer

text \<open>The failures that are a diagnostic on stderr followed by \<open>soft_exit(1)\<close>.\<close>

fun fatalExit :: "failure \<Rightarrow> bool" where
  "fatalExit WildPointer = False"
| "fatalExit _ = True"

text \<open>
  The fields of \<open>class Read\<close> that \<open>init\<close>, \<open>clip\<close>, \<open>becomeRC\<close> and the FASTQ readers
  read or write (\<open>id_ptr\<close> is the field \<open>id\<close>). \<open>unsigned\<close> is a 32-bit word. \<open>localBuffer\<close> is the array
  \<open>char localBuffer[MAX_READ_LENGTH * 3]\<close>; only its values at indices below
  \<open>localBufferLength\<close> are bytes of the array.
\<close>

record Read =
  id_ptr :: ptr
  idLength :: "32 word"
  data :: ptr
  unclippedData :: ptr
  unclippedQuality :: ptr
  quality :: ptr
  readGroup :: ptr
  dataLength :: "32 word"
  unclippedLength :: "32 word"
  frontClippedLength :: "32 word"
  clippingState :: ReadClippingType
  originalAlignedLocation :: "32 word"
  originalMAPQ :: "32 word"
  originalSAMFlags :: "32 word"
  originalFrontClipping :: "32 word"
  originalBackClipping :: "32 word"
  originalFrontHardClipping :: "32 word"
  originalBackHardClipping :: "32 word"
  originalRNEXT :: ptr
  originalRNEXTLength :: "32 word"
  originalPNEXT :: "32 word"
  localBuffer :: "nat \<Rightarrow> char"
  localBufferAllocationOffset :: "32 word"
  upcaseForwardRead :: ptr
  rcData :: ptr
  rcQuality :: ptr
  externalData :: ptr
  externalQuality :: ptr
  currentReadDirection :: Direction
  batch :: nat

definition MAX_READ_LENGTH :: nat where
  "MAX_READ_LENGTH = 500"

definition localBufferLength :: nat where
  "localBufferLength = MAX_READ_LENGTH * 3"

text \<open>
  The members that \<open>class Read\<close> declares behind \<open>localBuffer\<close>, in the order of the
  declaration. \<open>localBuffer[i]\<close> with \<open>i\<close> at or past \<open>localBufferLength\<close> is a byte of
  one of them (or of what lies behind the object).
\<close>

record membersBehind =
  m_localBufferAllocationOffset :: "32 word"
  m_upcaseForwardRead :: ptr
  m_rcData :: ptr
  m_rcQuality :: ptr
  m_externalData :: ptr
  m_externalQuality :: ptr
  m_currentReadDirection :: Direction
  m_batch :: nat

definition behind :: "Read \<Rightarrow> membersBehind" where
  "behind r =
    \<lparr>m_localBufferAllocationOffset = localBufferAllocationOffset r,
     m_upcaseForwardRead = upcaseForwardRead r, m_rcData = rcData r, m_rcQuality = rcQuality r,
     m_externalData = externalData r, m_externalQuality = externalQuality r,
     m_currentReadDirection = currentReadDirection r, m_batch = batch r\<rparr>"

definition putBehind :: "membersBehind \<Rightarrow> Read \<Rightarrow> Read" where
  "putBehind b r =
    r\<lparr>localBufferAllocationOffset := m_localBufferAllocationOffset b,
      upcaseForwardRead := m_upcaseForwardRead b, rcData := m_rcData b,
      rcQuality := m_rcQuality b, externalData := m_externalData b,
      externalQuality := m_externalQuality b,
      currentReadDirection := m_currentReadDirection b, batch := m_batch b\<rparr>"

text \<open>
  The source never checks an index into \<open>localBuffer\<close> (\<open>assureLocalBufferLargeEnough\<close> is
  empty, the \<open>_ASSERT\<close> of \<open>becomeRC\<close> is compiled out of release builds), so a store or a
  load at \<open>localBuffer[localBufferLength + k]\<close> happens. Which member it touches, and how,
  is the layout and byte order of the machine: the two functions \<open>storePastEnd\<close> and
  \<open>loadPastEnd\<close> of \<open>k\<close> and the members behind the array are parameters of the model,
  next to the tables. The members declared before the array are out of reach of such
  a store.
\<close>

record platform = tables +
  storePastEnd :: "nat \<Rightarrow> char \<Rightarrow> membersBehind \<Rightarrow> membersBehind"
  loadPastEnd :: "nat \<Rightarrow> membersBehind \<Rightarrow> char"

text \<open>
  The memory a Read operation works on: the caller's bytes and the Read itself.
  \<open>peek\<close> is \<open>*p\<close>, \<open>poke\<close> is \<open>*p = c\<close>.
\<close>

type_synonym machine = "(nat \<Rightarrow> char) \<times> Read"

fun peek :: "platform \<Rightarrow> machine \<Rightarrow> ptr \<Rightarrow> char" where
  "peek t (mem, r) (Ext a) = mem a"
| "peek t (mem, r) (Loc i) =
     (if i < localBufferLength then localBuffer r i
      else loadPastEnd t (i - localBufferLength) (behind r))"

fun poke :: "platform \<Rightarrow> ptr \<Rightarrow> char \<Rightarrow> machine \<Rightarrow> machine" where
  "poke t (Ext a) c (mem, r) = (mem(a := c), r)"
| "poke t (Loc i) c (mem, r) =
     (if i < localBufferLength then (mem, r\<lparr>localBuffer := (localBuffer r)(i := c)\<rparr>)
      else (mem, putBehind (storePastEnd t (i - localBufferLength) c (behind r)) r))"


subsection \<open>init\<close>

text \<open>The fifteen parameters of \<open>Read::init\<close>, under their names in the source.\<close>

record InitArguments =
  i_id :: ptr
  i_idLength :: "32 word"
  i_data :: ptr
  i_quality :: ptr
  i_dataLength :: "32 word"
  i_originalAlignedLocation :: "32 word"
  i_originalMAPQ :: "32 word"
  i_originalSAMFlags :: "32 word"
  i_originalFrontClipping :: "32 word"
  i_originalBackClipping :: "32 word"
  i_originalFrontHardClipping :: "32 word"
  i_originalBackHardClipping :: "32 word"
  i_originalRNEXT :: ptr
  i_originalRNEXTLength :: "32 word"
  i_originalPNEXT :: "32 word"

text \<open>
  \<open>assureLocalBufferLargeEnough\<close> is empty in the source (its body is under \<open>#if 0\<close>, with
  the comment "Always true with static allocation"), so nothing keeps the upper-cased
  copy inside \<open>localBuffer\<close>: for a read with a lower-case base and more than
  \<open>localBufferLength\<close> bases the copying loop stores past the end of the array.
\<close>

text \<open>The body of the copying loop: \<^verbatim>\<open>upcaseForwardRead[i] = TO_UPPER_CASE[data[i]]\<close>.\<close>

definition upcaseLoopBody :: "platform \<Rightarrow> nat \<Rightarrow> machine \<Rightarrow> machine" where
  "upcaseLoopBody t i st =
     poke t (ptrAdd (upcaseForwardRead (snd st)) i)
       (TO_UPPER_CASE t (peek t st (ptrAdd (data (snd st)) i))) st"

definition init :: "platform \<Rightarrow> InitArguments \<Rightarrow> machine \<Rightarrow> machine" where
  "init t a s =
    (let r = (snd s)\<lparr>
           id_ptr := i_id a,
           idLength := i_idLength a,
           data := i_data a, unclippedData := i_data a, externalData := i_data a,
           quality := i_quality a, unclippedQuality := i_quality a,
           externalQuality := i_quality a,
           dataLength := i_dataLength a,
           unclippedLength := i_dataLength a,
           frontClippedLength := 0,
           clippingState := NoClipping,
           originalAlignedLocation := i_originalAlignedLocation a,
           originalMAPQ := i_originalMAPQ a,
           originalSAMFlags := i_originalSAMFlags a,
           originalFrontClipping := i_originalFrontClipping a,
           originalBackClipping := i_originalBackClipping a,
           originalFrontHardClipping := i_originalFrontHardClipping a,
           originalBackHardClipping := i_originalBackHardClipping a,
           originalRNEXT := i_originalRNEXT a,
           originalRNEXTLength := i_originalRNEXTLength a,
           originalPNEXT := i_originalPNEXT a,
           currentReadDirection := FORWARD,
           localBufferAllocationOffset := 0,
           upcaseForwardRead := NULL, rcData := NULL, rcQuality := NULL\<rparr>;
         s1 = (fst s, r);
         anyLowerCase =
           fold (\<lambda>i acc. acc OR IS_LOWER_CASE t (peek t s1 (ptrAdd (data r) i)))
             [0..<unat (dataLength r)] 0
     in if anyLowerCase \<noteq> 0 then
          let s2 = (fst s1, r\<lparr>upcaseForwardRead := Loc 0,
                     localBufferAllocationOffset :=
                       localBufferAllocationOffset r + unclippedLength r\<rparr>);
              s3 = fold (upcaseLoopBody t) [0..<unat (dataLength r)] s2
          in (fst s3, (snd s3)\<lparr>unclippedData := upcaseForwardRead (snd s3),
                                   data := upcaseForwardRead (snd s3)\<rparr>)
        else s1)"

text \<open>The five-parameter overload: \<open>init(i_id, i_idLength, i_data, i_quality, i_dataLength,
  -1, -1, 0, 0, 0, 0, 0, NULL, 0, 0)\<close>.\<close>

definition init5 :: "platform \<Rightarrow> ptr \<Rightarrow> 32 word \<Rightarrow> ptr \<Rightarrow> ptr \<Rightarrow> 32 word \<Rightarrow> machine
    \<Rightarrow> machine" where
  "init5 t the_id the_idLength the_data the_quality the_dataLength =
     init t \<lparr>i_id = the_id, i_idLength = the_idLength, i_data = the_data,
       i_quality = the_quality, i_dataLength = the_dataLength,
       i_originalAlignedLocation = - 1, i_originalMAPQ = - 1, i_originalSAMFlags = 0,
       i_originalFrontClipping = 0, i_originalBackClipping = 0,
       i_originalFrontHardClipping = 0, i_originalBackHardClipping = 0,
       i_originalRNEXT = NULL, i_originalRNEXTLength = 0, i_originalPNEXT = 0\<rparr>"

subsection \<open>clip\<close>

text \<open>
  The two loops of \<open>clip\<close>, over the quality bytes \<open>q i = quality[i]\<close>:
  \<^verbatim>\<open>while (dataLength > 0 && quality[dataLength - 1] == '#') { dataLength--; backClipping++; }\<close>
  and
  \<^verbatim>\<open>while (frontClippedLength < dataLength && quality[frontClippedLength] == '#') frontClippedLength++;\<close>
\<close>

function clipBackLoop :: "(nat \<Rightarrow> char) \<Rightarrow> 32 word \<Rightarrow> 32 word \<Rightarrow> 32 word \<times> 32 word" where
  "clipBackLoop q dl backClipping =
     (if 0 < dl \<and> q (unat (dl - 1)) = CHR ''#''
      then clipBackLoop q (dl - 1) (backClipping + 1)
      else (dl, backClipping))"
  by pat_completeness auto
termination
  by (relation "measure (\<lambda>(q, dl, b). unat dl)") (auto simp: unat_minus_one word_gt_0 unat_gt_0)

function clipFrontLoop :: "(nat \<Rightarrow> char) \<Rightarrow> 32 word \<Rightarrow> 32 word \<Rightarrow> 32 word" where
  "clipFrontLoop q dl front =
     (if front < dl \<and> q (unat front) = CHR ''#''
      then clipFrontLoop q dl (front + 1)
      else front)"
  by pat_completeness auto
termination
proof (relation "measure (\<lambda>(q, dl, f). unat dl - unat f)")
  show "wf (measure (\<lambda>(q, dl, f). unat dl - unat f))" by simp
next
  fix q :: "nat \<Rightarrow> char" and dl front :: "32 word"
  assume "front < dl \<and> q (unat front) = CHR ''#''"
  then have lt: "unat front < unat dl" by (simp add: word_less_nat_alt)
  have "unat dl < 2 ^ 32" using unsigned_less [of dl] by simp
  with lt have "unat front + 1 < 2 ^ 32" by simp
  then have "unat (front + 1) = unat front + 1"
    by (simp add: unat_add_lem [THEN iffD1])
  with lt show "((q, dl, front + 1), (q, dl, front)) \<in> measure (\<lambda>(q, dl, f). unat dl - unat f)"
    by simp
qed

declare clipBackLoop.simps [simp del] clipFrontLoop.simps [simp del]

text \<open>
  \<open>clip(clipping, maintainOriginalClipping)\<close>. It only reads memory. The \<open>_ASSERT\<close> is
  compiled out of release builds and does nothing here; the subtractions are those of
  \<open>unsigned\<close> and wrap.
\<close>

definition clip :: "platform \<Rightarrow> ReadClippingType \<Rightarrow> bool \<Rightarrow> machine \<Rightarrow> machine" where
  "clip t clipping maintainOriginalClipping s =
    (let r = snd s in
     if clipping = clippingState r then s
     else
       let q = (\<lambda>i. peek t s (ptrAdd (unclippedQuality r) i));
           dl0 = unclippedLength r;
           dl1 =
             (if clipping = ClipBack \<or> clipping = ClipFrontAndBack then
                let (dl, backClipping) = clipBackLoop q dl0 0 in
                if maintainOriginalClipping \<and> backClipping < originalBackClipping r
                then dl - (originalBackClipping r - backClipping)
                else dl
              else dl0);
           front =
             (if clipping = ClipFront \<or> clipping = ClipFrontAndBack then
                let f = clipFrontLoop q dl1 0 in
                if maintainOriginalClipping then max f (originalFrontClipping r) else f
              else 0)
       in (fst s, r\<lparr>dataLength := dl1 - front,
                    frontClippedLength := front,
                    data := ptrAdd (unclippedData r) (unat front),
                    quality := ptrAdd (unclippedQuality r) (unat front),
                    clippingState := clipping\<rparr>))"

subsection \<open>becomeRC\<close>

text \<open>
  The first turn to reverse complement takes \<open>2 * unclippedLength\<close> bytes of
  \<open>localBuffer\<close> at \<open>localBufferAllocationOffset\<close>; the source asserts that they fit
  (\<^verbatim>\<open>_ASSERT(localBufferAllocationOffset <= localBufferLength)\<close>), in debug builds only.
  The release code goes on either way; so does the model.
\<close>

text \<open>The body of the loop that fills the two areas:
  \<^verbatim>\<open>rcData[i] = COMPLEMENT[unclippedData[unclippedLength - i - 1]];\<close>
  \<^verbatim>\<open>rcQuality[unclippedLength-i-1] = unclippedQuality[i];\<close>\<close>

definition rcLoopBody :: "platform \<Rightarrow> nat \<Rightarrow> machine \<Rightarrow> machine" where
  "rcLoopBody t i st =
     (let n = unat (unclippedLength (snd st));
          st1 = poke t (ptrAdd (rcData (snd st)) i)
                  (COMPLEMENT t (peek t st (ptrAdd (unclippedData (snd st)) (n - i - 1)))) st
      in poke t (ptrAdd (rcQuality (snd st1)) (n - i - 1))
           (peek t st1 (ptrAdd (unclippedQuality (snd st1)) i)) st1)"

text \<open>The part of \<open>becomeRC\<close> up to the comment "The clipping reverses as we go to/from RC".\<close>

definition turn :: "platform \<Rightarrow> machine \<Rightarrow> machine" where
  "turn t s =
    (let r = snd s; off = localBufferAllocationOffset r; n = unclippedLength r in
     if currentReadDirection r = RC then
       (fst s, r\<lparr>unclippedData :=
                      (if upcaseForwardRead r \<noteq> NULL then upcaseForwardRead r
                       else externalData r),
                    unclippedQuality := externalQuality r,
                    currentReadDirection := FORWARD\<rparr>)
     else if rcData r \<noteq> NULL then
       (fst s, r\<lparr>unclippedData := rcData r, unclippedQuality := rcQuality r,
                    currentReadDirection := RC\<rparr>)
     else
       let r1 = r\<lparr>rcData := ptrAdd (Loc 0) (unat off),
                   rcQuality := ptrAdd (Loc 0) (unat (off + n)),
                   localBufferAllocationOffset := off + n + n\<rparr>;
           s2 = fold (rcLoopBody t) [0..<unat n] (fst s, r1)
       in (fst s2, (snd s2)\<lparr>unclippedData := rcData (snd s2),
                                unclippedQuality := rcQuality (snd s2),
                                currentReadDirection := RC\<rparr>))"

definition becomeRC :: "platform \<Rightarrow> machine \<Rightarrow> machine" where
  "becomeRC t s =
    (let (mem, r') = turn t s;
         front = unclippedLength r' - dataLength r' - frontClippedLength r'
     in (mem, r'\<lparr>frontClippedLength := front,
                  data := ptrAdd (unclippedData r') (unat front),
                  quality := ptrAdd (unclippedQuality r') (unat front),
                  originalFrontClipping := originalBackClipping r',
                  originalBackClipping := originalFrontClipping r',
                  originalFrontHardClipping := originalBackHardClipping r',
                  originalBackHardClipping := originalFrontHardClipping r'\<rparr>))"


section \<open>The byte source and the FASTQ readers (FASTQ.cpp)\<close>

subsection \<open>What FASTQ.cpp takes from headers that are not at hand\<close>

text \<open>
  Modelled from the spec: \<open>util::strnchr\<close> (\<open>Util.h\<close> is not part of the sources). The
  source uses it as the spec describes the scan ("the first byte following the first
  newline"): the position of the first byte equal to \<open>ch\<close> among the \<open>limit\<close> bytes
  from \<open>p\<close> on, or \<open>NULL\<close> (\<open>None\<close>) when there is none.
\<close>

fun strnchr :: "char list \<Rightarrow> nat \<Rightarrow> char \<Rightarrow> nat \<Rightarrow> nat option" where
  "strnchr mem p ch 0 = None"
| "strnchr mem p ch (Suc limit) =
     (if byteAt mem p = ch then Some p else strnchr mem (Suc p) ch limit)"

text \<open>
  Modelled from the spec: the \<open>DataReader\<close> (\<open>DataReader.h\<close> is not part of the sources),
  after section 6 of the spec: \<open>getData() \<rightarrow> (buffer, validByteCount)\<close>, \<open>advance(n)\<close>,
  \<open>nextBatch()\<close>, \<open>isEOF()\<close>, \<open>getBatch()\<close>. The source is a sequence of batches; \<open>current\<close>
  holds the bytes of the batch in memory, \<open>offset\<close> is the cursor in it, \<open>later\<close> are the
  batches not yet loaded. \<open>getData\<close> answers \<open>false\<close> when the cursor has used up the
  batch; \<open>buffer\<close> is a position in \<open>current\<close>.
\<close>

record DataReader =
  current :: "char list"
  offset :: nat
  later :: "char list list"
  batchNumber :: nat

definition getData :: "DataReader \<Rightarrow> bool \<times> nat \<times> nat" where
  "getData d = (offset d < length (current d), offset d, length (current d) - offset d)"

definition advance :: "nat \<Rightarrow> DataReader \<Rightarrow> DataReader" where
  "advance n d = d\<lparr>offset := offset d + n\<rparr>"

definition nextBatch :: "DataReader \<Rightarrow> DataReader" where
  "nextBatch d =
     (case later d of
        [] \<Rightarrow> d\<lparr>current := [], offset := 0\<rparr>
      | b # bs \<Rightarrow> d\<lparr>current := b, offset := 0, later := bs, batchNumber := batchNumber d + 1\<rparr>)"

definition isEOF :: "DataReader \<Rightarrow> bool" where
  "isEOF d \<longleftrightarrow> later d = []"

definition getBatch :: "DataReader \<Rightarrow> nat" where
  "getBatch d = batchNumber d"

text \<open>The two fields of \<open>struct ReaderContext\<close> (\<open>Read.h\<close>) that the FASTQ readers use.\<close>

record ReaderContext =
  defaultReadGroup :: ptr
  clipping :: ReadClippingType

subsection \<open>The table of line-start bytes (FASTQReader::\_init)\<close>

text \<open>
  \<open>isValidStartingCharacterForNextLine[row][c]\<close>: all \<open>false\<close> after the \<open>memset\<close>, then row 3
  gets \<open>'@'\<close>, row 0 the bytes of \<open>"ACTGNURYKMSWBDHVNX"\<close> and their \<open>tolower\<close>, row 1 gets
  \<open>'+'\<close>, row 2 the bytes from \<open>'!'\<close> to \<open>'~'\<close>. The row for line \<open>i\<close> of a record is
  \<open>(i + 3) % 4\<close>.
\<close>

definition nLinesPerFastqQuery :: nat where
  "nLinesPerFastqQuery = 4"

definition tolower :: "char \<Rightarrow> char" where
  "tolower c = (if 65 \<le> (of_char c :: nat) \<and> (of_char c :: nat) \<le> 90
                then char_of (of_char c + 32 :: nat) else c)"

definition isValidStartingCharacterForNextLine :: "nat \<Rightarrow> char \<Rightarrow> bool" where
  "isValidStartingCharacterForNextLine row c =
     (if row = 3 then c = CHR ''@''
      else if row = 0 then
        c \<in> set ''ACTGNURYKMSWBDHVNX'' \<or> c \<in> set (map tolower ''ACTGNURYKMSWBDHVNX'')
      else if row = 1 then c = CHR ''+''
      else if row = 2 then 33 \<le> (of_char c :: nat) \<and> (of_char c :: nat) \<le> 126
      else False)"

subsection \<open>FASTQReader::skipPartialRecord\<close>

text \<open>The bytes the \<open>while\<close> loop of \<open>skipPartialRecord\<close> steps over.\<close>

definition skippedAsBase :: "char \<Rightarrow> bool" where
  "skippedAsBase c \<longleftrightarrow>
     c = CHR ''A'' \<or> c = CHR ''C'' \<or> c = CHR ''T'' \<or> c = CHR ''G'' \<or> c = CHR ''N'' \<or>
     c = CHR ''a'' \<or> c = CHR ''c'' \<or> c = CHR ''t'' \<or> c = CHR ''g''"

lemma skippedAsBase_in_buffer: "skippedAsBase (byteAt mem p) \<Longrightarrow> p < length mem"
  by (auto simp: byteAt_def skippedAsBase_def split: if_splits)

text \<open>\<^verbatim>\<open>while (*thirdLineCandidate == 'A' || ...) thirdLineCandidate++;\<close> It stops at the
  latest on the \<open>NUL\<close> behind the buffer.\<close>

function skipBases :: "char list \<Rightarrow> nat \<Rightarrow> nat" where
  "skipBases mem p = (if skippedAsBase (byteAt mem p) then skipBases mem (p + 1) else p)"
  by pat_completeness auto
termination
  by (relation "measure (\<lambda>(mem, p). length mem - p)")
    (auto dest: skippedAsBase_in_buffer)

declare skipBases.simps [simp del]

lemma strnchr_bounds: "strnchr mem p ch limit = Some q \<Longrightarrow> p \<le> q \<and> q < p + limit"
proof (induction limit arbitrary: p)
  case 0
  then show ?case by simp
next
  case (Suc limit)
  show ?case
  proof (cases "byteAt mem p = ch")
    case True
    with Suc.prems show ?thesis by simp
  next
    case False
    with Suc.prems have "strnchr mem (Suc p) ch limit = Some q" by simp
    from Suc.IH [OF this] show ?thesis by simp
  qed
qed

text \<open>
  The \<open>for (;;)\<close> loop of \<open>skipPartialRecord\<close>, from one \<open>firstLineCandidate\<close> to the next.
  \<open>None\<close> is \<open>return false\<close> (with or without the diagnostic "(2)"), \<open>Some first\<close> is the
  \<open>break\<close>.
\<close>

function skipLoop :: "char list \<Rightarrow> nat \<Rightarrow> nat \<Rightarrow> nat \<Rightarrow> nat option" where
  "skipLoop mem buffer validBytes firstLineCandidate =
     (if validBytes \<le> firstLineCandidate - buffer then None
      else
        case strnchr mem firstLineCandidate NL (validBytes - (firstLineCandidate - buffer)) of
          None \<Rightarrow> None
        | Some newLine \<Rightarrow>
            let secondLineCandidate = newLine + 1 in
            if byteAt mem firstLineCandidate \<noteq> CHR ''@''
            then skipLoop mem buffer validBytes secondLineCandidate
            else
              let bases = skipBases mem secondLineCandidate;
                  thirdLineCandidate = (if byteAt mem bases = CR then bases + 1 else bases)
              in if byteAt mem thirdLineCandidate \<noteq> NL
                 then skipLoop mem buffer validBytes secondLineCandidate
                 else if byteAt mem (thirdLineCandidate + 1) \<noteq> CHR ''+''
                 then skipLoop mem buffer validBytes secondLineCandidate
                 else Some firstLineCandidate)"
  by pat_completeness auto
termination
proof (relation "measure (\<lambda>(mem, buffer, validBytes, first). buffer + validBytes + 1 - first)")
  show "wf (measure (\<lambda>(mem, buffer, validBytes, first). buffer + validBytes + 1 - first))"
    by simp
next
  fix mem :: "char list" and buffer validBytes first newLine second :: nat
  assume a: "\<not> validBytes \<le> first - buffer"
    "strnchr mem first NL (validBytes - (first - buffer)) = Some newLine"
    "second = newLine + 1"
  from strnchr_bounds [OF a(2)] a(1,3)
  show "((mem, buffer, validBytes, second), (mem, buffer, validBytes, first))
      \<in> measure (\<lambda>(mem, buffer, validBytes, first). buffer + validBytes + 1 - first)"
    by auto
  then show "((mem, buffer, validBytes, second), (mem, buffer, validBytes, first))
      \<in> measure (\<lambda>(mem, buffer, validBytes, first). buffer + validBytes + 1 - first)"
    and "((mem, buffer, validBytes, second), (mem, buffer, validBytes, first))
      \<in> measure (\<lambda>(mem, buffer, validBytes, first). buffer + validBytes + 1 - first)"
    by simp_all
qed

declare skipLoop.simps [simp del]

text \<open>
  \<open>skipPartialRecord(data)\<close>. The result of the first \<open>strnchr\<close> is not checked before
  \<open>+ 1\<close>: a buffer that neither starts with \<open>'@'\<close> nor holds a line feed sends the loop
  to the address \<open>NULL + 1\<close>; the model stops there with \<open>WildPointer\<close>. On success the
  cursor moves: \<open>data->advance(firstLineCandidate - buffer)\<close>.
\<close>

definition skipPartialRecord :: "DataReader \<Rightarrow> failure + (bool \<times> DataReader)" where
  "skipPartialRecord d =
     (let (ok, buffer, validBytes) = getData d; mem = current d in
      case (if byteAt mem buffer \<noteq> CHR ''@''
            then (case strnchr mem buffer NL validBytes of
                    None \<Rightarrow> Inl WildPointer
                  | Some newLine \<Rightarrow> Inr (newLine + 1))
            else Inr buffer)
      of Inl e \<Rightarrow> Inl e
       | Inr firstLineCandidate \<Rightarrow>
           (case skipLoop mem buffer validBytes firstLineCandidate of
              None \<Rightarrow> Inr (False, d)
            | Some first \<Rightarrow> Inr (True, advance (first - buffer) d)))"


subsection \<open>FASTQReader::getReadFromBuffer\<close>

text \<open>
  One turn of the loop over the four lines, for line \<open>i\<close> at \<open>scan\<close>. \<open>Stopped\<close> is a
  diagnostic and \<open>soft_exit(1)\<close>, \<open>ControlZ\<close> is the \<open>return false\<close> for a lone \<open>0x1a\<close> at
  the end of the input, \<open>Line start length next\<close> gives \<open>lines[i]\<close>, \<open>lineLengths[i]\<close> and
  the next value of \<open>scan\<close>.
\<close>

datatype lineScan = Stopped failure | ControlZ | Line nat "32 word" nat

definition scanLine :: "char list \<Rightarrow> bool \<Rightarrow> nat \<Rightarrow> nat \<Rightarrow> nat \<Rightarrow> nat \<Rightarrow> lineScan" where
  "scanLine mem eof buffer validBytes i scan =
     (case strnchr mem scan NL (validBytes - (scan - buffer)) of
        None \<Rightarrow>
          if validBytes - (scan - buffer) = 1 \<and> byteAt mem scan = SUB \<and> eof then ControlZ
          else if eof then Stopped NoNewlineAtEOF
          else Stopped RecordLargerThanBuffer
      | Some newLine \<Rightarrow>
          let lineLen = newLine - scan in
          if lineLen = 0 then Stopped BlankLine
          else if \<not> isValidStartingCharacterForNextLine ((i + 3) mod 4) (byteAt mem scan)
          then Stopped InvalidStartingCharacter
          else Line scan
                 (of_nat lineLen - (if byteAt mem (scan + lineLen - 1) = CR then 1 else 0))
                 (newLine + (if byteAt mem (newLine + 1) = CR then 2 else 1)))"

text \<open>
  The loop \<^verbatim>\<open>for (unsigned i = 0; i < nLinesPerFastqQuery; i++)\<close>, with \<open>k\<close> turns left.
  The arrays \<open>lines\<close> and \<open>lineLengths\<close> are functions of the index.
\<close>

datatype lineLoopResult =
  Failed failure | ReturnedFalse | Completed "nat \<Rightarrow> nat" "nat \<Rightarrow> 32 word" nat

fun lineLoop :: "char list \<Rightarrow> bool \<Rightarrow> nat \<Rightarrow> nat \<Rightarrow> nat \<Rightarrow> nat
    \<Rightarrow> (nat \<Rightarrow> nat) \<Rightarrow> (nat \<Rightarrow> 32 word) \<Rightarrow> nat \<Rightarrow> lineLoopResult" where
  "lineLoop mem eof buffer validBytes i 0 lines lineLengths scan =
     Completed lines lineLengths scan"
| "lineLoop mem eof buffer validBytes i (Suc k) lines lineLengths scan =
     (case scanLine mem eof buffer validBytes i scan of
        Stopped e \<Rightarrow> Failed e
      | ControlZ \<Rightarrow> ReturnedFalse
      | Line start len next \<Rightarrow>
          lineLoop mem eof buffer validBytes (Suc i) k
            (lines(i := start)) (lineLengths(i := len)) next)"

text \<open>
  \<open>getReadFromBuffer(buffer, validBytes, readToUpdate, fileName, data, context)\<close>: the
  bytes consumed and the Read. \<open>buffer\<close> is a position in the batch of \<open>data\<close>; the Read
  points into that batch. \<open>return false\<close> is the value 0 with the Read untouched.
\<close>

definition getReadFromBuffer :: "platform \<Rightarrow> nat \<Rightarrow> nat \<Rightarrow> Read \<Rightarrow> DataReader \<Rightarrow> ReaderContext
    \<Rightarrow> failure + nat \<times> Read" where
  "getReadFromBuffer t buffer validBytes readToUpdate d context =
     (case lineLoop (current d) (isEOF d) buffer validBytes 0 nLinesPerFastqQuery
             (\<lambda>i. 0) (\<lambda>i. 0) buffer of
        Failed e \<Rightarrow> Inl e
      | ReturnedFalse \<Rightarrow> Inr (0, readToUpdate)
      | Completed lines lineLengths scan \<Rightarrow>
          let s = init5 t (Ext (lines 0 + 1)) (lineLengths 0 - 1) (Ext (lines 1))
                    (Ext (lines 3)) (lineLengths 1) (byteAt (current d), readToUpdate)
          in Inr (scan - buffer,
                  (snd (clip t (clipping context) False s))
                    \<lparr>batch := getBatch d, readGroup := defaultReadGroup context\<rparr>))"

subsection \<open>FASTQReader::getNextRead and reinit\<close>

definition getNextRead :: "platform \<Rightarrow> ReaderContext \<Rightarrow> DataReader \<Rightarrow> Read
    \<Rightarrow> failure + bool \<times> DataReader \<times> Read" where
  "getNextRead t context d readToUpdate =
     (let d1 = (if fst (getData d) then d else nextBatch d);
          (ok, buffer, validBytes) = getData d1
      in if \<not> ok then Inr (False, d1, readToUpdate)
         else
           case getReadFromBuffer t buffer validBytes readToUpdate d1 context of
             Inl e \<Rightarrow> Inl e
           | Inr (bytesConsumed, r) \<Rightarrow> Inr (True, advance bytesConsumed d1, r))"

text \<open>
  \<open>FASTQReader::reinit\<close>, after its first statement: \<open>d\<close> is the byte source as
  \<open>data->reinit(startingOffset, amountOfFileToProcess)\<close> leaves it.
\<close>

definition reinit :: "nat \<Rightarrow> DataReader \<Rightarrow> failure + DataReader" where
  "reinit startingOffset d =
     (if \<not> fst (getData d) then Inr d
      else if startingOffset \<noteq> 0 then
        (case skipPartialRecord d of Inl e \<Rightarrow> Inl e | Inr (found, d') \<Rightarrow> Inr d')
      else Inr d)"

subsection \<open>PairedInterleavedFASTQReader\<close>

text \<open>The last \<open>n\<close> bytes of the identifier of a Read, in the batch \<open>mem\<close>.\<close>

definition idByte :: "platform \<Rightarrow> char list \<Rightarrow> Read \<Rightarrow> nat \<Rightarrow> char" where
  "idByte t mem r k = peek t (byteAt mem, r) (ptrAdd (id_ptr r) k)"

text \<open>\<^verbatim>\<open>read->getIdLength() < 2 || memcmp(read->getId() + read->getIdLength() - 2, suffix, 2)\<close>\<close>

definition idLacksSuffix :: "platform \<Rightarrow> char list \<Rightarrow> Read \<Rightarrow> char \<Rightarrow> char \<Rightarrow> bool" where
  "idLacksSuffix t mem r c1 c2 \<longleftrightarrow>
     idLength r < 2 \<or>
     \<not> (idByte t mem r (unat (idLength r) - 2) = c1 \<and>
        idByte t mem r (unat (idLength r) - 1) = c2)"

definition interleavedGetNextReadPair :: "platform \<Rightarrow> ReaderContext \<Rightarrow> DataReader \<Rightarrow> Read \<Rightarrow> Read
    \<Rightarrow> failure + bool \<times> DataReader \<times> Read \<times> Read" where
  "interleavedGetNextReadPair t context d read0 read1 =
     (let d1 = (if fst (getData d) then d else nextBatch d);
          (ok, buffer, validBytes) = getData d1
      in if \<not> ok then Inr (False, d1, read0, read1)
         else
           case getReadFromBuffer t buffer validBytes read0 d1 context of
             Inl e \<Rightarrow> Inl e
           | Inr (bytesConsumed, r0) \<Rightarrow>
               if bytesConsumed = validBytes then Inr (False, d1, r0, read1)
               else
                 case getReadFromBuffer t (buffer + bytesConsumed) (validBytes - bytesConsumed)
                        read1 d1 context of
                   Inl e \<Rightarrow> Inl e
                 | Inr (consumedNext, r1) \<Rightarrow>
                     if idLacksSuffix t (current d1) r0 (CHR ''/'') (CHR ''1'')
                     then Inl FirstReadNotSlash1
                     else if idLacksSuffix t (current d1) r1 (CHR ''/'') (CHR ''2'')
                     then Inl SecondReadNotSlash2
                     else Inr (True, advance (bytesConsumed + consumedNext) d1, r0, r1))"

text \<open>
  \<open>PairedInterleavedFASTQReader::reinit\<close>, after \<open>data->reinit\<close>. The local \<open>Read read\<close>
  is \<open>scratch\<close>, a Read as its constructor leaves it.
\<close>

definition interleavedReinit :: "platform \<Rightarrow> ReaderContext \<Rightarrow> nat \<Rightarrow> Read \<Rightarrow> DataReader
    \<Rightarrow> failure + DataReader" where
  "interleavedReinit t context startingOffset scratch d =
     (if \<not> fst (getData d) then Inr d
      else
        case (if startingOffset \<noteq> 0 then skipPartialRecord d else Inr (True, d)) of
          Inl e \<Rightarrow> Inl e
        | Inr (found, d1) \<Rightarrow>
            if \<not> found then Inr d1
            else
              let (ok, buffer, bytes) = getData d1 in
              if \<not> ok then Inr d1
              else
                case getReadFromBuffer t buffer bytes scratch d1 context of
                  Inl e \<Rightarrow> Inl e
                | Inr (bytesForFirstRead, r) \<Rightarrow>
                    let mem = current d1; n = unat (idLength r) in
                    if idLength r < 2 \<or> idByte t mem r (n - 2) \<noteq> CHR ''/'' \<or>
                       (idByte t mem r (n - 1) \<noteq> CHR ''1'' \<and> idByte t mem r (n - 1) \<noteq> CHR ''2'')
                    then Inl IdNotPaired
                    else if idByte t mem r (n - 1) = CHR ''2'' then
                      let d2 = advance bytesForFirstRead d1;
                          (ok2, buffer2, bytes2) = getData d2
                      in if \<not> ok2 then Inl ChunkEndsWithFirstHalf
                         else
                           case getReadFromBuffer t buffer2 bytes2 r d2 context of
                             Inl e \<Rightarrow> Inl e
                           | Inr (bytesForNext, r') \<Rightarrow>
                               let n' = unat (idLength r') in
                               if idLength r' < 2 \<or> idByte t (current d2) r' (n' - 2) \<noteq> CHR ''/'' \<or>
                                  idByte t (current d2) r' (n' - 1) \<noteq> CHR ''1''
                               then Inl FirstOfPairNotSlash1
                               else Inr d2
                    else Inr d1)"

subsection \<open>PairedFASTQReader::getNextReadPair\<close>

text \<open>\<open>readers[0]\<close> and \<open>readers[1]\<close> are the byte sources \<open>d0\<close> and \<open>d1\<close> of two FASTQ readers.\<close>

definition pairedGetNextReadPair :: "platform \<Rightarrow> ReaderContext \<Rightarrow> DataReader \<times> DataReader
    \<Rightarrow> Read \<Rightarrow> Read \<Rightarrow> failure + bool \<times> (DataReader \<times> DataReader) \<times> Read \<times> Read" where
  "pairedGetNextReadPair t context readers read0 read1 =
     (case getNextRead t context (fst readers) read0 of
        Inl e \<Rightarrow> Inl e
      | Inr (worked, d0, r0) \<Rightarrow>
          (case getNextRead t context (snd readers) read1 of
             Inl e \<Rightarrow> Inl e
           | Inr (worked1, d1, r1) \<Rightarrow>
               if worked1 \<noteq> worked then Inl FilesDontMatch
               else Inr (worked, (d0, d1), r0, r1)))"

section \<open>Sample data for the worked examples\<close>

text \<open>
  A table set, a platform, a Read with every field zero and a buffer of two records,
  for the closed instances below. The theorems themselves hold for all tables, all
  platforms and all memory.
\<close>

definition sampleTables :: tables where
  "sampleTables =
    \<lparr>IS_LOWER_CASE = (\<lambda>c. if 97 \<le> (of_char c :: nat) \<and> (of_char c :: nat) \<le> 122 then 1 else 0),
     TO_UPPER_CASE = (\<lambda>c. if 97 \<le> (of_char c :: nat) \<and> (of_char c :: nat) \<le> 122
                         then char_of (of_char c - 32 :: nat) else c),
     COMPLEMENT = (\<lambda>c. if c = CHR ''A'' then CHR ''T'' else if c = CHR ''T'' then CHR ''A''
                      else if c = CHR ''C'' then CHR ''G'' else if c = CHR ''G'' then CHR ''C''
                      else c)\<rparr>"

text \<open>
  The platform of the examples is x86-64: little-endian, \<open>unsigned\<close> and the enumeration
  in 4 bytes, pointers in 8. Behind the 1500 bytes of \<open>localBuffer\<close> lie
  \<open>localBufferAllocationOffset\<close> (bytes 0 to 3), \<open>upcaseForwardRead\<close> (4 to 11), \<open>rcData\<close>
  (12 to 19), \<open>rcQuality\<close> (20 to 27), \<open>externalData\<close> (28 to 35), \<open>externalQuality\<close> (36 to
  43) and \<open>currentReadDirection\<close> (44 to 47). \<open>localBuffer\<close> itself is at the address
  \<open>sampleBase\<close>, so \<open>Loc i\<close> is the address \<open>sampleBase + i\<close> and \<open>Ext a\<close> the address \<open>a\<close>.
  What lies further behind is not modelled: a store there changes nothing and a load
  there gives \<open>NUL\<close>.
\<close>

definition sampleBase :: nat where
  "sampleBase = 1048576"

definition setByte :: "nat \<Rightarrow> char \<Rightarrow> nat \<Rightarrow> nat" where
  "setByte k c v = v - ((v div 256 ^ k) mod 256) * 256 ^ k + of_char c * 256 ^ k"

definition getByte :: "nat \<Rightarrow> nat \<Rightarrow> char" where
  "getByte k v = char_of ((v div 256 ^ k) mod 256)"

fun addressOf :: "ptr \<Rightarrow> nat" where
  "addressOf (Ext a) = a"
| "addressOf (Loc i) = sampleBase + i"

definition pointerAt :: "nat \<Rightarrow> ptr" where
  "pointerAt a =
     (if sampleBase \<le> a \<and> a < sampleBase + localBufferLength + 48 then Loc (a - sampleBase)
      else Ext a)"

fun directionCode :: "Direction \<Rightarrow> nat" where
  "directionCode FORWARD = 0"
| "directionCode RC = 1"

definition directionAt :: "nat \<Rightarrow> Direction" where
  "directionAt v = (if v = 1 then RC else FORWARD)"

definition sampleStore :: "nat \<Rightarrow> char \<Rightarrow> membersBehind \<Rightarrow> membersBehind" where
  "sampleStore k c b =
     (if k < 4 then
        b\<lparr>m_localBufferAllocationOffset :=
            of_nat (setByte k c (unat (m_localBufferAllocationOffset b)))\<rparr>
      else if k < 12 then
        b\<lparr>m_upcaseForwardRead := pointerAt (setByte (k - 4) c (addressOf (m_upcaseForwardRead b)))\<rparr>
      else if k < 20 then
        b\<lparr>m_rcData := pointerAt (setByte (k - 12) c (addressOf (m_rcData b)))\<rparr>
      else if k < 28 then
        b\<lparr>m_rcQuality := pointerAt (setByte (k - 20) c (addressOf (m_rcQuality b)))\<rparr>
      else if k < 36 then
        b\<lparr>m_externalData := pointerAt (setByte (k - 28) c (addressOf (m_externalData b)))\<rparr>
      else if k < 44 then
        b\<lparr>m_externalQuality := pointerAt (setByte (k - 36) c (addressOf (m_externalQuality b)))\<rparr>
      else if k < 48 then
        b\<lparr>m_currentReadDirection :=
            directionAt (setByte (k - 44) c (directionCode (m_currentReadDirection b)))\<rparr>
      else b)"

definition sampleLoad :: "nat \<Rightarrow> membersBehind \<Rightarrow> char" where
  "sampleLoad k b =
     (if k < 4 then getByte k (unat (m_localBufferAllocationOffset b))
      else if k < 12 then getByte (k - 4) (addressOf (m_upcaseForwardRead b))
      else if k < 20 then getByte (k - 12) (addressOf (m_rcData b))
      else if k < 28 then getByte (k - 20) (addressOf (m_rcQuality b))
      else if k < 36 then getByte (k - 28) (addressOf (m_externalData b))
      else if k < 44 then getByte (k - 36) (addressOf (m_externalQuality b))
      else if k < 48 then getByte (k - 44) (directionCode (m_currentReadDirection b))
      else NUL)"

definition samplePlatform :: platform where
  "samplePlatform =
    \<lparr>IS_LOWER_CASE = IS_LOWER_CASE sampleTables, TO_UPPER_CASE = TO_UPPER_CASE sampleTables,
     COMPLEMENT = COMPLEMENT sampleTables,
     storePastEnd = sampleStore, loadPastEnd = sampleLoad\<rparr>"

definition blankRead :: Read where
  "blankRead =
    \<lparr>id_ptr = NULL, idLength = 0, data = NULL, unclippedData = NULL, unclippedQuality = NULL,
     quality = NULL, readGroup = NULL, dataLength = 0, unclippedLength = 0,
     frontClippedLength = 0, clippingState = NoClipping,
     originalAlignedLocation = - 1, originalMAPQ = - 1, originalSAMFlags = 0,
     originalFrontClipping = 0, originalBackClipping = 0,
     originalFrontHardClipping = 0, originalBackHardClipping = 0,
     originalRNEXT = NULL, originalRNEXTLength = 0, originalPNEXT = 0,
     localBuffer = (\<lambda>i. NUL), localBufferAllocationOffset = 0,
     upcaseForwardRead = NULL, rcData = NULL, rcQuality = NULL,
     externalData = NULL, externalQuality = NULL,
     currentReadDirection = FORWARD, batch = 0\<rparr>"


section \<open>Read: stores and loads\<close>

text \<open>The members declared before \<open>localBuffer\<close>: no store through a pointer of the Read
  reaches them.\<close>

definition frontMembers :: "Read \<Rightarrow> _" where
  "frontMembers r =
    ((id_ptr r, idLength r, data r, unclippedData r, unclippedQuality r, quality r, readGroup r),
     (dataLength r, unclippedLength r, frontClippedLength r, clippingState r),
     (originalAlignedLocation r, originalMAPQ r, originalSAMFlags r),
     (originalFrontClipping r, originalBackClipping r,
      originalFrontHardClipping r, originalBackHardClipping r),
     (originalRNEXT r, originalRNEXTLength r, originalPNEXT r))"

lemma frontMembers_poke [simp]: "frontMembers (snd (poke t p c s)) = frontMembers (snd s)"
  by (cases s; cases p) (simp_all add: frontMembers_def putBehind_def)

lemma frontMembers_fields:
  assumes "frontMembers r' = frontMembers r"
  shows "dataLength r' = dataLength r" "unclippedLength r' = unclippedLength r"
    "frontClippedLength r' = frontClippedLength r" "clippingState r' = clippingState r"
    "data r' = data r" "unclippedData r' = unclippedData r"
    "quality r' = quality r" "unclippedQuality r' = unclippedQuality r"
    "originalFrontClipping r' = originalFrontClipping r"
    "originalBackClipping r' = originalBackClipping r"
    "originalFrontHardClipping r' = originalFrontHardClipping r"
    "originalBackHardClipping r' = originalBackHardClipping r"
    "id_ptr r' = id_ptr r" "idLength r' = idLength r"
  using assms by (simp_all add: frontMembers_def)

lemma poke_in_buffer:
  "i < localBufferLength \<Longrightarrow>
     poke t (Loc i) c (mem, r) = (mem, r\<lparr>localBuffer := (localBuffer r)(i := c)\<rparr>)"
  by simp

lemma peek_in_buffer: "i < localBufferLength \<Longrightarrow> peek t (mem, r) (Loc i) = localBuffer r i"
  by simp

lemma peek_Ext [simp]: "peek t (mem, r) (Ext a) = mem a"
  by simp

section \<open>Read: initialisation\<close>

lemma fold_or_zero:
  "fold (\<lambda>i acc. acc OR f i) xs (a :: 32 word) = 0 \<longleftrightarrow> a = 0 \<and> list_all (\<lambda>i. f i = 0) xs"
  by (induction xs arbitrary: a) (auto simp: or_eq_0_iff)

lemma ptrAdd_0 [simp]: "ptrAdd p 0 = p"
  by (cases p) simp_all

lemma frontMembers_upcase [simp]:
  "frontMembers (snd (fold (upcaseLoopBody t) xs s)) = frontMembers (snd s)"
  by (induction xs arbitrary: s) (simp_all add: upcaseLoopBody_def)

lemma fold_upcase:
  assumes "upcaseForwardRead r = Loc 0" "data r = Ext addr"
    and "list_all (\<lambda>j. j < localBufferLength) xs"
  shows "fold (upcaseLoopBody t) xs (mem, r)
         = (mem, r\<lparr>localBuffer := (\<lambda>j. if j \<in> set xs then TO_UPPER_CASE t (mem (addr + j)) else localBuffer r j)\<rparr>)"
  using assms
proof (induction xs arbitrary: r)
  case Nil
  then show ?case by simp
next
  case (Cons x xs)
  let ?r1 = "r\<lparr>localBuffer := (localBuffer r)(x := TO_UPPER_CASE t (mem (addr + x)))\<rparr>"
  have x: "x < localBufferLength" and xs: "list_all (\<lambda>j. j < localBufferLength) xs"
    using Cons.prems(3) by simp_all
  have "fold (upcaseLoopBody t) (x # xs) (mem, r)
      = fold (upcaseLoopBody t) xs (mem, ?r1)"
    using Cons.prems(1,2) x by (simp add: upcaseLoopBody_def)
  also have "\<dots> = (mem, ?r1\<lparr>localBuffer := (\<lambda>j. if j \<in> set xs then TO_UPPER_CASE t (mem (addr + j)) else localBuffer ?r1 j)\<rparr>)"
    using Cons.prems(1,2) xs by (intro Cons.IH) simp_all
  also have "\<dots> = (mem, r\<lparr>localBuffer := (\<lambda>j. if j \<in> set (x # xs) then TO_UPPER_CASE t (mem (addr + j)) else localBuffer r j)\<rparr>)"
    by (auto simp: fun_eq_iff)
  finally show ?case .
qed

lemma init_no_lower:
  assumes "i_data a = Ext addr"
    and "list_all (\<lambda>i. IS_LOWER_CASE t (mem (addr + i)) = 0) [0..<unat (i_dataLength a)]"
  shows "\<exists>r'. init t a (mem, r) = (mem, r') \<and>
          clippingState r' = NoClipping \<and> currentReadDirection r' = FORWARD \<and>
          frontClippedLength r' = 0 \<and> dataLength r' = i_dataLength a \<and>
          unclippedLength r' = i_dataLength a \<and> rcData r' = NULL \<and> rcQuality r' = NULL \<and>
          upcaseForwardRead r' = NULL \<and> localBufferAllocationOffset r' = 0 \<and>
          data r' = Ext addr \<and> unclippedData r' = Ext addr \<and> externalData r' = Ext addr \<and>
          quality r' = i_quality a \<and> unclippedQuality r' = i_quality a \<and>
          externalQuality r' = i_quality a \<and>
          localBuffer r' = localBuffer r"
  using assms by (simp add: init_def Let_def fold_or_zero)

lemma upt_in_buffer: "n \<le> localBufferLength \<Longrightarrow> list_all (\<lambda>j. j < localBufferLength) [0..<n]"
  by (simp add: list_all_iff)

lemma init_lower:
  assumes "i_data a = Ext addr"
    and "\<not> list_all (\<lambda>i. IS_LOWER_CASE t (mem (addr + i)) = 0) [0..<unat (i_dataLength a)]"
    and "unat (i_dataLength a) \<le> localBufferLength"
  shows "\<exists>r'. init t a (mem, r) = (mem, r') \<and>
          clippingState r' = NoClipping \<and> currentReadDirection r' = FORWARD \<and>
          frontClippedLength r' = 0 \<and> dataLength r' = i_dataLength a \<and>
          unclippedLength r' = i_dataLength a \<and> rcData r' = NULL \<and> rcQuality r' = NULL \<and>
          upcaseForwardRead r' = Loc 0 \<and> localBufferAllocationOffset r' = i_dataLength a \<and>
          data r' = Loc 0 \<and> unclippedData r' = Loc 0 \<and> externalData r' = Ext addr \<and>
          quality r' = i_quality a \<and> unclippedQuality r' = i_quality a \<and>
          externalQuality r' = i_quality a \<and>
          localBuffer r' = (\<lambda>j. if j < unat (i_dataLength a) then TO_UPPER_CASE t (mem (addr + j))
                                else localBuffer r j)"
  using assms
  by (simp add: init_def Let_def fold_or_zero fold_upcase upt_in_buffer fun_eq_iff)

section \<open>Read: clipping\<close>

text \<open>
  \<open>clipView\<close> is what \<open>clip\<close> computes from the unclipped baseline when the mode changes:
  the new \<open>dataLength\<close> and \<open>frontClippedLength\<close>. \<open>reclip\<close> stores it.
\<close>

definition clipView :: "platform \<Rightarrow> ReadClippingType \<Rightarrow> bool \<Rightarrow> machine \<Rightarrow> 32 word \<times> 32 word" where
  "clipView t c m s =
    (let r = snd s;
         q = (\<lambda>i. peek t s (ptrAdd (unclippedQuality r) i));
         dl0 = unclippedLength r;
         dl1 =
           (if c = ClipBack \<or> c = ClipFrontAndBack then
              let (dl, backClipping) = clipBackLoop q dl0 0 in
              if m \<and> backClipping < originalBackClipping r
              then dl - (originalBackClipping r - backClipping)
              else dl
            else dl0);
         front =
           (if c = ClipFront \<or> c = ClipFrontAndBack then
              let f = clipFrontLoop q dl1 0 in
              if m then max f (originalFrontClipping r) else f
            else 0)
     in (dl1 - front, front))"

definition reclip :: "platform \<Rightarrow> ReadClippingType \<Rightarrow> bool \<Rightarrow> machine \<Rightarrow> machine" where
  "reclip t c m s = (fst s, (snd s)\<lparr>dataLength := fst (clipView t c m s),
                    frontClippedLength := snd (clipView t c m s),
                    data := ptrAdd (unclippedData (snd s)) (unat (snd (clipView t c m s))),
                    quality := ptrAdd (unclippedQuality (snd s)) (unat (snd (clipView t c m s))),
                    clippingState := c\<rparr>)"

lemma clip_unfold:
  "clip t c m s = (if c = clippingState (snd s) then s else reclip t c m s)"
  by (simp add: clip_def clipView_def reclip_def Let_def case_prod_beta)

lemma peek_reclip [simp]: "peek t (reclip t' c m s) p = peek t s p"
  by (cases s; cases p) (simp_all add: reclip_def behind_def)




lemma clippingState_reclip [simp]: "clippingState (snd (reclip t c m s)) = c"
  by (simp add: reclip_def)

lemma clip_state [simp]: "clippingState (snd (clip t c m s)) = c"
  by (simp add: clip_unfold)

lemma clip_mem [simp]: "fst (clip t c m s) = fst s"
  by (simp add: clip_unfold reclip_def)


definition unclipped :: "Read \<Rightarrow> bool" where
  "unclipped r \<longleftrightarrow> clippingState r = NoClipping \<and> dataLength r = unclippedLength r \<and>
     frontClippedLength r = 0 \<and> data r = unclippedData r \<and> quality r = unclippedQuality r"

lemma clipView_NoClipping [simp]: "clipView t NoClipping m s = (unclippedLength (snd s), 0)"
  by (simp add: clipView_def)



lemma init_unclipped: "unclipped (snd (init t a s))"
proof -
  let ?r = "(snd s)\<lparr>
           id_ptr := i_id a,
           idLength := i_idLength a,
           data := i_data a, unclippedData := i_data a, externalData := i_data a,
           quality := i_quality a, unclippedQuality := i_quality a,
           externalQuality := i_quality a,
           dataLength := i_dataLength a,
           unclippedLength := i_dataLength a,
           frontClippedLength := 0,
           clippingState := NoClipping,
           originalAlignedLocation := i_originalAlignedLocation a,
           originalMAPQ := i_originalMAPQ a,
           originalSAMFlags := i_originalSAMFlags a,
           originalFrontClipping := i_originalFrontClipping a,
           originalBackClipping := i_originalBackClipping a,
           originalFrontHardClipping := i_originalFrontHardClipping a,
           originalBackHardClipping := i_originalBackHardClipping a,
           originalRNEXT := i_originalRNEXT a,
           originalRNEXTLength := i_originalRNEXTLength a,
           originalPNEXT := i_originalPNEXT a,
           currentReadDirection := FORWARD,
           localBufferAllocationOffset := 0,
           upcaseForwardRead := NULL, rcData := NULL, rcQuality := NULL\<rparr>"
  let ?r2 = "?r\<lparr>upcaseForwardRead := Loc 0,
                       localBufferAllocationOffset :=
                         localBufferAllocationOffset ?r + unclippedLength ?r\<rparr>"
  define s3 where "s3 = fold (upcaseLoopBody t) [0..<unat (i_dataLength a)] (fst s, ?r2)"
  have "frontMembers (snd s3) = frontMembers ?r2"
    by (simp add: s3_def)
  note f = frontMembers_fields [OF this]
  have "init t a s = (fst s, ?r) \<or>
        init t a s = (fst s3, (snd s3)\<lparr>unclippedData := upcaseForwardRead (snd s3),
                                         data := upcaseForwardRead (snd s3)\<rparr>)"
    unfolding s3_def by (simp add: init_def Let_def)
  then show ?thesis
  proof
    assume "init t a s = (fst s, ?r)"
    then show ?thesis by (simp add: unclipped_def)
  next
    assume "init t a s = (fst s3, (snd s3)\<lparr>unclippedData := upcaseForwardRead (snd s3),
                                         data := upcaseForwardRead (snd s3)\<rparr>)"
    then show ?thesis
      using f(1,2,3,4,7,8) by (simp add: unclipped_def)
  qed
qed

definition readInvariant :: "Read \<Rightarrow> bool" where
  "readInvariant r \<longleftrightarrow>
     unat (frontClippedLength r) + unat (dataLength r) \<le> unat (unclippedLength r) \<and>
     data r = ptrAdd (unclippedData r) (unat (frontClippedLength r)) \<and>
     quality r = ptrAdd (unclippedQuality r) (unat (frontClippedLength r))"





lemma init_readInvariant: "readInvariant (snd (init t a s))"
  using init_unclipped [of t a s] by (simp add: unclipped_def readInvariant_def)

section \<open>Read: reverse complement\<close>

definition flipClipping :: "Read \<Rightarrow> Read" where
  "flipClipping r' =
    (let front = unclippedLength r' - dataLength r' - frontClippedLength r' in
     r'\<lparr>frontClippedLength := front,
        data := ptrAdd (unclippedData r') (unat front),
        quality := ptrAdd (unclippedQuality r') (unat front),
        originalFrontClipping := originalBackClipping r',
        originalBackClipping := originalFrontClipping r',
        originalFrontHardClipping := originalBackHardClipping r',
        originalBackHardClipping := originalFrontHardClipping r'\<rparr>)"

lemma becomeRC_unfold: "becomeRC t s = (fst (turn t s), flipClipping (snd (turn t s)))"
  by (simp add: becomeRC_def flipClipping_def Let_def case_prod_beta)

lemma frontMembers_rcLoopBody [simp]:
  "frontMembers (snd (rcLoopBody t i s)) = frontMembers (snd s)"
  by (simp add: rcLoopBody_def Let_def)

lemma frontMembers_rc [simp]:
  "frontMembers (snd (fold (rcLoopBody t) xs s)) = frontMembers (snd s)"
  by (induction xs arbitrary: s) simp_all

text \<open>\<open>turn\<close> leaves the lengths, the clipping state and the original clipping fields.\<close>

definition lengthsOf :: "Read \<Rightarrow> _" where
  "lengthsOf r = ((dataLength r, unclippedLength r, frontClippedLength r, clippingState r),
     (originalFrontClipping r, originalBackClipping r,
      originalFrontHardClipping r, originalBackHardClipping r))"

lemma lengthsOf_frontMembers:
  "frontMembers r' = frontMembers r \<Longrightarrow> lengthsOf r' = lengthsOf r"
  by (simp add: frontMembers_def lengthsOf_def)

lemma lengthsOf_turn: "lengthsOf (snd (turn t s)) = lengthsOf (snd s)"
proof -
  define r1 where "r1 = (snd s)\<lparr>rcData := ptrAdd (Loc 0) (unat (localBufferAllocationOffset (snd s))),
     rcQuality := ptrAdd (Loc 0) (unat (localBufferAllocationOffset (snd s) + unclippedLength (snd s))),
     localBufferAllocationOffset :=
       localBufferAllocationOffset (snd s) + unclippedLength (snd s) + unclippedLength (snd s)\<rparr>"
  define s2 where "s2 = fold (rcLoopBody t) [0..<unat (unclippedLength (snd s))] (fst s, r1)"
  have "frontMembers (snd s2) = frontMembers r1"
    by (simp add: s2_def)
  then have "lengthsOf (snd s2) = lengthsOf r1"
    by (rule lengthsOf_frontMembers)
  then have fresh: "lengthsOf ((snd s2)\<lparr>unclippedData := rcData (snd s2),
      unclippedQuality := rcQuality (snd s2), currentReadDirection := RC\<rparr>) = lengthsOf (snd s)"
    by (simp add: lengthsOf_def r1_def)
  show ?thesis
    unfolding turn_def Let_def r1_def [symmetric] s2_def [symmetric]
    using fresh by (simp add: lengthsOf_def)
qed

lemma lengthsOf_fields:
  assumes "lengthsOf r' = lengthsOf r"
  shows "dataLength r' = dataLength r" "unclippedLength r' = unclippedLength r"
    "frontClippedLength r' = frontClippedLength r" "clippingState r' = clippingState r"
    "originalFrontClipping r' = originalFrontClipping r"
    "originalBackClipping r' = originalBackClipping r"
    "originalFrontHardClipping r' = originalFrontHardClipping r"
    "originalBackHardClipping r' = originalBackHardClipping r"
  using assms by (simp_all add: lengthsOf_def)

lemma flipClipping_readInvariant:
  assumes "unat (frontClippedLength r) + unat (dataLength r) \<le> unat (unclippedLength r)"
  shows "readInvariant (flipClipping r)"
proof -
  have "unat (unclippedLength r - dataLength r - frontClippedLength r)
      = unat (unclippedLength r) - unat (dataLength r) - unat (frontClippedLength r)"
    using assms by (simp add: unat_sub word_le_nat_alt)
  with assms show ?thesis
    by (simp add: readInvariant_def flipClipping_def Let_def)
qed

lemma becomeRC_readInvariant:
  assumes "readInvariant (snd s)"
  shows "readInvariant (snd (becomeRC t s))"
proof -
  note f = lengthsOf_fields [OF lengthsOf_turn [of t s]]
  have "unat (frontClippedLength (snd (turn t s))) + unat (dataLength (snd (turn t s)))
      \<le> unat (unclippedLength (snd (turn t s)))"
    using assms unfolding f by (simp add: readInvariant_def)
  then show ?thesis
    unfolding becomeRC_unfold snd_conv by (rule flipClipping_readInvariant)
qed

lemma rcLoopBody_Loc:
  assumes "rcData r = Loc a" "rcQuality r = Loc b"
    and "a + i < localBufferLength" "b + (unat (unclippedLength r) - i - 1) < localBufferLength"
  shows "\<exists>c1 c2. rcLoopBody t i (mem, r) =
     (mem, r\<lparr>localBuffer := (localBuffer r)(a + i := c1,
        b + (unat (unclippedLength r) - i - 1) := c2)\<rparr>)"
  using assms by (simp add: rcLoopBody_def Let_def) blast

lemma fold_rc_fields:
  assumes "rcData r = Loc a" "rcQuality r = Loc b"
    and "list_all (\<lambda>i. a + i < localBufferLength \<and>
           b + (unat (unclippedLength r) - i - 1) < localBufferLength) xs"
  shows "\<exists>lb. fold (rcLoopBody t) xs (mem, r) = (mem, r\<lparr>localBuffer := lb\<rparr>) \<and>
           (\<forall>j. (\<forall>i\<in>set xs. j \<noteq> a + i \<and> j \<noteq> b + (unat (unclippedLength r) - i - 1))
              \<longrightarrow> lb j = localBuffer r j)"
  using assms
proof (induction xs arbitrary: r)
  case Nil
  show ?case by (auto intro: exI [of _ "localBuffer r"])
next
  case (Cons x xs)
  have bx: "a + x < localBufferLength" "b + (unat (unclippedLength r) - x - 1) < localBufferLength"
    and bxs: "list_all (\<lambda>i. a + i < localBufferLength \<and>
           b + (unat (unclippedLength r) - i - 1) < localBufferLength) xs"
    using Cons.prems(3) by simp_all
  from rcLoopBody_Loc [OF Cons.prems(1,2) bx] obtain c1 c2 where
    step: "rcLoopBody t x (mem, r) =
     (mem, r\<lparr>localBuffer := (localBuffer r)(a + x := c1,
        b + (unat (unclippedLength r) - x - 1) := c2)\<rparr>)" by blast
  define r2 where "r2 = r\<lparr>localBuffer := (localBuffer r)(a + x := c1,
        b + (unat (unclippedLength r) - x - 1) := c2)\<rparr>"
  have "rcData r2 = Loc a" "rcQuality r2 = Loc b"
    "list_all (\<lambda>i. a + i < localBufferLength \<and>
           b + (unat (unclippedLength r2) - i - 1) < localBufferLength) xs"
    using Cons.prems(1,2) bxs by (simp_all add: r2_def)
  from Cons.IH [OF this] obtain lb where
    lb: "fold (rcLoopBody t) xs (mem, r2) = (mem, r2\<lparr>localBuffer := lb\<rparr>)"
    and keep: "\<forall>j. (\<forall>i\<in>set xs. j \<noteq> a + i \<and> j \<noteq> b + (unat (unclippedLength r2) - i - 1))
        \<longrightarrow> lb j = localBuffer r2 j"
    by blast
  have 1: "r2\<lparr>localBuffer := lb\<rparr> = r\<lparr>localBuffer := lb\<rparr>"
    by (simp add: r2_def)
  have 2: "\<forall>j. (\<forall>i\<in>set (x # xs). j \<noteq> a + i \<and> j \<noteq> b + (unat (unclippedLength r) - i - 1))
      \<longrightarrow> lb j = localBuffer r j"
    using keep by (simp add: r2_def)
  have "fold (rcLoopBody t) (x # xs) (mem, r) = (mem, r\<lparr>localBuffer := lb\<rparr>)"
    using lb step 1 by (simp add: r2_def)
  with 2 show ?case by blast
qed

lemma becomeRC_toForward:
  assumes "currentReadDirection r = RC"
  shows "becomeRC t (mem, r) = (mem, flipClipping (r\<lparr>unclippedData :=
                           (if upcaseForwardRead r \<noteq> NULL then upcaseForwardRead r
                            else externalData r),
                         unclippedQuality := externalQuality r,
                         currentReadDirection := FORWARD\<rparr>))"
  using assms by (simp add: becomeRC_unfold turn_def Let_def)

lemma becomeRC_cached:
  assumes "currentReadDirection r = FORWARD" "rcData r \<noteq> NULL"
  shows "becomeRC t (mem, r) = (mem, flipClipping (r\<lparr>unclippedData := rcData r,
                         unclippedQuality := rcQuality r, currentReadDirection := RC\<rparr>))"
  using assms by (simp add: becomeRC_unfold turn_def Let_def)

lemma alloc_no_wrap:
  fixes off n :: "32 word"
  assumes "unat off + 2 * unat n \<le> localBufferLength"
  shows "unat (off + n) = unat off + unat n"
    and "unat (off + n + n) = unat off + unat n + unat n"
proof -
  have b: "unat off + unat n + unat n < 2 ^ LENGTH(32)"
    using assms by (simp add: localBufferLength_def MAX_READ_LENGTH_def)
  then have "unat off + unat n < 2 ^ LENGTH(32)" by simp
  then show 1: "unat (off + n) = unat off + unat n"
    by (rule unat_add_lem [THEN iffD1])
  with b have "unat (off + n) + unat n < 2 ^ LENGTH(32)" by simp
  then have "unat ((off + n) + n) = unat (off + n) + unat n"
    by (rule unat_add_lem [THEN iffD1])
  with 1 show "unat (off + n + n) = unat off + unat n + unat n" by simp
qed

lemma becomeRC_fresh:
  assumes fresh: "currentReadDirection r = FORWARD" "rcData r = NULL"
    and fits: "unat (localBufferAllocationOffset r) + 2 * unat (unclippedLength r) \<le> localBufferLength"
  shows "\<exists>lb. (\<forall>j. j < unat (localBufferAllocationOffset r) \<longrightarrow> lb j = localBuffer r j) \<and>
     becomeRC t (mem, r) =
       (mem, flipClipping (r\<lparr>rcData := Loc (unat (localBufferAllocationOffset r)),
                      rcQuality := Loc (unat (localBufferAllocationOffset r) + unat (unclippedLength r)),
                      localBufferAllocationOffset :=
                        localBufferAllocationOffset r + unclippedLength r + unclippedLength r,
                      localBuffer := lb,
                      unclippedData := Loc (unat (localBufferAllocationOffset r)),
                      unclippedQuality := Loc (unat (localBufferAllocationOffset r) + unat (unclippedLength r)),
                      currentReadDirection := RC\<rparr>))"
proof -
  define off where "off = unat (localBufferAllocationOffset r)"
  define n where "n = unat (unclippedLength r)"
  define r1 where "r1 = r\<lparr>rcData := Loc off, rcQuality := Loc (off + n),
                    localBufferAllocationOffset :=
                      localBufferAllocationOffset r + unclippedLength r + unclippedLength r\<rparr>"
  have fits': "off + 2 * n \<le> localBufferLength"
    using fits by (simp add: off_def n_def)
  have q: "unat (localBufferAllocationOffset r + unclippedLength r) = off + n"
    using alloc_no_wrap(1) [OF fits] by (simp add: off_def n_def)
  have "rcData r1 = Loc off" "rcQuality r1 = Loc (off + n)"
    by (simp_all add: r1_def)
  moreover have "list_all (\<lambda>i. off + i < localBufferLength \<and>
           off + n + (unat (unclippedLength r1) - i - 1) < localBufferLength) [0..<n]"
    using fits' by (auto simp: list_all_iff r1_def n_def)
  ultimately obtain lb where
    lb: "fold (rcLoopBody t) [0..<n] (mem, r1) = (mem, r1\<lparr>localBuffer := lb\<rparr>)"
    and keep: "\<forall>j. (\<forall>i\<in>set [0..<n]. j \<noteq> off + i \<and> j \<noteq> off + n + (unat (unclippedLength r1) - i - 1))
        \<longrightarrow> lb j = localBuffer r1 j"
    using fold_rc_fields [of r1 off "off + n" "[0..<n]" t mem] by blast
  have keep': "\<forall>j. j < off \<longrightarrow> lb j = localBuffer r j"
  proof (intro allI impI)
    fix j assume "j < off"
    then have "\<forall>i\<in>set [0..<n]. j \<noteq> off + i \<and> j \<noteq> off + n + (unat (unclippedLength r1) - i - 1)"
      by auto
    with keep have "lb j = localBuffer r1 j" by blast
    then show "lb j = localBuffer r j"
      by (simp add: r1_def)
  qed
  have t: "turn t (mem, r) = (mem, (r1\<lparr>localBuffer := lb\<rparr>)\<lparr>unclippedData := Loc off,
                      unclippedQuality := Loc (off + n), currentReadDirection := RC\<rparr>)"
    unfolding turn_def Let_def fst_conv snd_conv
    using fresh lb by (simp add: q off_def [symmetric] n_def [symmetric] r1_def [symmetric])
      (simp add: r1_def)
  have "becomeRC t (mem, r) = (mem, flipClipping ((r1\<lparr>localBuffer := lb\<rparr>)\<lparr>unclippedData := Loc off,
                      unclippedQuality := Loc (off + n), currentReadDirection := RC\<rparr>))"
    by (simp add: becomeRC_unfold t)
  then have "becomeRC t (mem, r) =
       (mem, flipClipping (r\<lparr>rcData := Loc off, rcQuality := Loc (off + n),
                      localBufferAllocationOffset :=
                        localBufferAllocationOffset r + unclippedLength r + unclippedLength r,
                      localBuffer := lb,
                      unclippedData := Loc off, unclippedQuality := Loc (off + n),
                      currentReadDirection := RC\<rparr>))"
    by (simp add: r1_def)
  with keep' show ?thesis
    unfolding off_def n_def by blast
qed

definition spanBytes :: "platform \<Rightarrow> machine \<Rightarrow> ptr \<Rightarrow> nat \<Rightarrow> char list" where
  "spanBytes t s p n = map (\<lambda>i. peek t s (ptrAdd p i)) [0..<n]"

definition readView :: "platform \<Rightarrow> machine \<Rightarrow>
    (ptr \<times> ptr \<times> ptr \<times> ptr) \<times> (char list \<times> char list \<times> char list \<times> char list) \<times>
    (32 word \<times> 32 word \<times> 32 word) \<times> (Direction \<times> ReadClippingType) \<times>
    (32 word \<times> 32 word \<times> 32 word \<times> 32 word)" where
  "readView t s =
    (let r = snd s in
     ((data r, quality r, unclippedData r, unclippedQuality r),
      (spanBytes t s (data r) (unat (dataLength r)),
       spanBytes t s (quality r) (unat (dataLength r)),
       spanBytes t s (unclippedData r) (unat (unclippedLength r)),
       spanBytes t s (unclippedQuality r) (unat (unclippedLength r))),
      (dataLength r, unclippedLength r, frontClippedLength r),
      (currentReadDirection r, clippingState r),
      (originalFrontClipping r, originalBackClipping r,
       originalFrontHardClipping r, originalBackHardClipping r)))"

text \<open>
  A Read of at most \<open>MAX_READ_LENGTH\<close> bases after \<open>init\<close> on caller spans and any number of
  \<open>clip\<close> and \<open>becomeRC\<close> calls; \<open>clip\<close> with either value of \<open>maintainOriginalClipping\<close>, as
  long as what it leaves lies inside the read.
\<close>

inductive initialized :: "platform \<Rightarrow> (nat \<Rightarrow> char) \<Rightarrow> Read \<Rightarrow> bool" for t mem where
  byInit: "i_data a = Ext x \<Longrightarrow> i_quality a = Ext y
     \<Longrightarrow> unat (i_dataLength a) \<le> MAX_READ_LENGTH
     \<Longrightarrow> initialized t mem (snd (init t a (mem, r0)))"
| byClip: "initialized t mem r \<Longrightarrow> readInvariant (snd (clip t c m (mem, r)))
     \<Longrightarrow> initialized t mem (snd (clip t c m (mem, r)))"
| byBecomeRC: "initialized t mem r \<Longrightarrow> initialized t mem (snd (becomeRC t (mem, r)))"

definition layoutOK :: "Read \<Rightarrow> bool" where
  "layoutOK r \<longleftrightarrow>
     readInvariant r \<and> unat (unclippedLength r) \<le> MAX_READ_LENGTH \<and>
     (\<exists>x. externalData r = Ext x) \<and> (\<exists>y. externalQuality r = Ext y) \<and>
     (upcaseForwardRead r = NULL \<or>
      upcaseForwardRead r = Loc 0 \<and>
        unat (unclippedLength r) \<le> unat (localBufferAllocationOffset r)) \<and>
     (rcData r = NULL \<longrightarrow> currentReadDirection r = FORWARD \<and>
        unat (localBufferAllocationOffset r) \<le> unat (unclippedLength r)) \<and>
     (currentReadDirection r = FORWARD \<longrightarrow>
        unclippedData r = (if upcaseForwardRead r \<noteq> NULL then upcaseForwardRead r
                           else externalData r) \<and>
        unclippedQuality r = externalQuality r) \<and>
     (currentReadDirection r = RC \<longrightarrow>
        rcData r \<noteq> NULL \<and> unclippedData r = rcData r \<and> unclippedQuality r = rcQuality r)"

lemma capacity: "n \<le> MAX_READ_LENGTH \<Longrightarrow> n \<le> localBufferLength"
  by (simp add: localBufferLength_def)

lemma init_layoutOK:
  assumes "i_data a = Ext x" "i_quality a = Ext y" "unat (i_dataLength a) \<le> MAX_READ_LENGTH"
  shows "layoutOK (snd (init t a (mem, r0)))" and "fst (init t a (mem, r0)) = mem"
proof -
  have inv: "readInvariant (snd (init t a (mem, r0)))"
    by (rule init_readInvariant)
  have "layoutOK (snd (init t a (mem, r0))) \<and> fst (init t a (mem, r0)) = mem"
  proof (cases "list_all (\<lambda>i. IS_LOWER_CASE t (mem (x + i)) = 0) [0..<unat (i_dataLength a)]")
    case True
    from init_no_lower [OF assms(1) this, of r0] assms(2,3) inv show ?thesis
      by (auto simp: layoutOK_def)
  next
    case False
    from init_lower [OF assms(1) False capacity [OF assms(3)], of r0] assms(2,3) inv show ?thesis
      by (auto simp: layoutOK_def)
  qed
  then show "layoutOK (snd (init t a (mem, r0)))" and "fst (init t a (mem, r0)) = mem"
    by simp_all
qed

lemma clip_layoutOK:
  assumes "layoutOK r" "readInvariant (snd (clip t c m (mem, r)))"
  shows "layoutOK (snd (clip t c m (mem, r)))"
  using assms by (simp add: layoutOK_def clip_unfold reclip_def split: if_splits)

lemma becomeRC_layoutOK:
  assumes "layoutOK r"
  shows "layoutOK (snd (becomeRC t (mem, r)))" and "fst (becomeRC t (mem, r)) = mem"
proof -
  have inv: "readInvariant (snd (becomeRC t (mem, r)))"
    using becomeRC_readInvariant [of "(mem, r)" t] assms by (simp add: layoutOK_def)
  consider (toForward) "currentReadDirection r = RC"
    | (cached) "currentReadDirection r = FORWARD" "rcData r \<noteq> NULL"
    | (fresh) "currentReadDirection r = FORWARD" "rcData r = NULL"
    by (cases "currentReadDirection r") auto
  then have "layoutOK (snd (becomeRC t (mem, r))) \<and> fst (becomeRC t (mem, r)) = mem"
  proof cases
    case toForward
    from inv show ?thesis
      unfolding becomeRC_toForward [OF toForward]
      using assms toForward unfolding layoutOK_def
      by (simp add: flipClipping_def Let_def)
  next
    case cached
    from inv show ?thesis
      unfolding becomeRC_cached [OF cached]
      using assms cached unfolding layoutOK_def
      by (simp add: flipClipping_def Let_def)
  next
    case fresh
    have small: "unat (localBufferAllocationOffset r) \<le> unat (unclippedLength r)"
      "unat (unclippedLength r) \<le> MAX_READ_LENGTH"
      using assms fresh by (simp_all add: layoutOK_def)
    then have fits: "unat (localBufferAllocationOffset r) + 2 * unat (unclippedLength r) \<le> localBufferLength"
      by (simp add: localBufferLength_def)
    from becomeRC_fresh [OF fresh fits, of t mem] obtain lb where
      eq: "becomeRC t (mem, r) =
       (mem, flipClipping (r\<lparr>rcData := Loc (unat (localBufferAllocationOffset r)),
                      rcQuality := Loc (unat (localBufferAllocationOffset r) + unat (unclippedLength r)),
                      localBufferAllocationOffset :=
                        localBufferAllocationOffset r + unclippedLength r + unclippedLength r,
                      localBuffer := lb,
                      unclippedData := Loc (unat (localBufferAllocationOffset r)),
                      unclippedQuality := Loc (unat (localBufferAllocationOffset r) + unat (unclippedLength r)),
                      currentReadDirection := RC\<rparr>))"
      by blast
    have "upcaseForwardRead r = NULL \<or>
      upcaseForwardRead r = Loc 0 \<and> unat (unclippedLength r) \<le> unat (localBufferAllocationOffset r)"
      "\<exists>x. externalData r = Ext x" "\<exists>y. externalQuality r = Ext y"
      using assms by (simp_all add: layoutOK_def)
    moreover note alloc_no_wrap(2) [OF fits]
    ultimately show ?thesis
      using inv small unfolding eq layoutOK_def
      by (auto simp add: flipClipping_def Let_def)
  qed
  then show "layoutOK (snd (becomeRC t (mem, r)))" and "fst (becomeRC t (mem, r)) = mem"
    by simp_all
qed

lemma initialized_layoutOK:
  assumes "initialized t mem r"
  shows "layoutOK r"
  using assms
proof (induction rule: initialized.induct)
  case (byInit a x y r0)
  then show ?case by (rule init_layoutOK(1))
next
  case (byClip r c m)
  then show ?case by (simp add: clip_layoutOK)
next
  case (byBecomeRC r)
  from byBecomeRC.IH show ?case by (rule becomeRC_layoutOK(1))
qed

fun peekRaw :: "platform \<Rightarrow> (nat \<Rightarrow> char) \<Rightarrow> (nat \<Rightarrow> char) \<Rightarrow> membersBehind \<Rightarrow> ptr \<Rightarrow> char" where
  "peekRaw t mem lb b (Ext a) = mem a"
| "peekRaw t mem lb b (Loc i) =
     (if i < localBufferLength then lb i else loadPastEnd t (i - localBufferLength) b)"

lemma peek_alt: "peek t (mem, r) p = peekRaw t mem (localBuffer r) (behind r) p"
  by (cases p) simp_all

lemma spanBytes_cong:
  assumes "\<And>i. i < n \<Longrightarrow> peek t s' (ptrAdd p i) = peek t s (ptrAdd p i)"
  shows "spanBytes t s' p n = spanBytes t s p n"
  using assms by (simp add: spanBytes_def)

lemma word_sub_sub_cancel: "(u :: 32 word) - d - (u - d - f) = f"
  by simp

lemma becomeRC_twice_view:
  assumes ok: "layoutOK r"
  shows "readView t (becomeRC t (becomeRC t (mem, r))) = readView t (mem, r)"
proof -
  have inv: "data r = ptrAdd (unclippedData r) (unat (frontClippedLength r))"
    "quality r = ptrAdd (unclippedQuality r) (unat (frontClippedLength r))"
    "unat (frontClippedLength r) + unat (dataLength r) \<le> unat (unclippedLength r)"
    using ok by (simp_all add: layoutOK_def readInvariant_def)
  consider (toForward) "currentReadDirection r = RC"
    | (cached) "currentReadDirection r = FORWARD" "rcData r \<noteq> NULL"
    | (fresh) "currentReadDirection r = FORWARD" "rcData r = NULL"
    by (cases "currentReadDirection r") auto
  then show ?thesis
  proof cases
    case toForward
    have rc: "rcData r \<noteq> NULL" "unclippedData r = rcData r" "unclippedQuality r = rcQuality r"
      using ok toForward by (simp_all add: layoutOK_def)
    let ?r1 = "flipClipping (r\<lparr>unclippedData :=
                           (if upcaseForwardRead r \<noteq> NULL then upcaseForwardRead r
                            else externalData r),
                         unclippedQuality := externalQuality r,
                         currentReadDirection := FORWARD\<rparr>)"
    have "currentReadDirection ?r1 = FORWARD" "rcData ?r1 \<noteq> NULL"
      using rc by (simp_all add: flipClipping_def Let_def)
    from becomeRC_cached [OF this, of t mem]
    have "becomeRC t (becomeRC t (mem, r)) = (mem, flipClipping (?r1\<lparr>unclippedData := rcData ?r1,
                         unclippedQuality := rcQuality ?r1, currentReadDirection := RC\<rparr>))"
      by (simp add: becomeRC_toForward [OF toForward])
    moreover have "readView t (mem, flipClipping (?r1\<lparr>unclippedData := rcData ?r1,
                         unclippedQuality := rcQuality ?r1, currentReadDirection := RC\<rparr>))
        = readView t (mem, r)"
      using rc toForward inv(1,2)
      by (simp add: readView_def flipClipping_def Let_def spanBytes_def peek_alt behind_def)
    ultimately show ?thesis by simp
  next
    case cached
    have fw: "unclippedData r = (if upcaseForwardRead r \<noteq> NULL then upcaseForwardRead r
                           else externalData r)" "unclippedQuality r = externalQuality r"
      using ok cached(1) by (simp_all add: layoutOK_def)
    let ?r1 = "flipClipping (r\<lparr>unclippedData := rcData r, unclippedQuality := rcQuality r,
                         currentReadDirection := RC\<rparr>)"
    have "currentReadDirection ?r1 = RC"
      by (simp add: flipClipping_def Let_def)
    from becomeRC_toForward [OF this, of t mem]
    have "becomeRC t (becomeRC t (mem, r)) = (mem, flipClipping (?r1\<lparr>unclippedData :=
                           (if upcaseForwardRead ?r1 \<noteq> NULL then upcaseForwardRead ?r1
                            else externalData ?r1),
                         unclippedQuality := externalQuality ?r1,
                         currentReadDirection := FORWARD\<rparr>))"
      by (simp add: becomeRC_cached [OF cached])
    moreover have "readView t (mem, flipClipping (?r1\<lparr>unclippedData :=
                           (if upcaseForwardRead ?r1 \<noteq> NULL then upcaseForwardRead ?r1
                            else externalData ?r1),
                         unclippedQuality := externalQuality ?r1,
                         currentReadDirection := FORWARD\<rparr>)) = readView t (mem, r)"
      using fw cached(1) inv(1,2)
      by (simp add: readView_def flipClipping_def Let_def spanBytes_def peek_alt behind_def)
    ultimately show ?thesis by simp
  next
    case fresh
    have small: "unat (localBufferAllocationOffset r) \<le> unat (unclippedLength r)"
      "unat (unclippedLength r) \<le> MAX_READ_LENGTH"
      using ok fresh by (simp_all add: layoutOK_def)
    then have fits: "unat (localBufferAllocationOffset r) + 2 * unat (unclippedLength r) \<le> localBufferLength"
      by (simp add: localBufferLength_def)
    have inBuffer: "i < localBufferLength" if "i < unat (unclippedLength r)" for i
      using that small(2) by (simp add: localBufferLength_def)
    from becomeRC_fresh [OF fresh fits, of t mem] obtain lb where
      keep: "\<forall>j<unat (localBufferAllocationOffset r). lb j = localBuffer r j"
      and first: "becomeRC t (mem, r) =
       (mem, flipClipping (r\<lparr>rcData := Loc (unat (localBufferAllocationOffset r)),
                      rcQuality := Loc (unat (localBufferAllocationOffset r) + unat (unclippedLength r)),
                      localBufferAllocationOffset :=
                        localBufferAllocationOffset r + unclippedLength r + unclippedLength r,
                      localBuffer := lb,
                      unclippedData := Loc (unat (localBufferAllocationOffset r)),
                      unclippedQuality := Loc (unat (localBufferAllocationOffset r) + unat (unclippedLength r)),
                      currentReadDirection := RC\<rparr>))"
      by blast
    have fw: "unclippedData r = (if upcaseForwardRead r \<noteq> NULL then upcaseForwardRead r
                           else externalData r)" "unclippedQuality r = externalQuality r"
      using ok fresh(1) by (simp_all add: layoutOK_def)
    obtain x y where ext: "externalData r = Ext x" "externalQuality r = Ext y"
      using ok by (auto simp: layoutOK_def)
    have up: "upcaseForwardRead r = NULL \<or>
      upcaseForwardRead r = Loc 0 \<and> unat (unclippedLength r) \<le> unat (localBufferAllocationOffset r)"
      using ok by (simp add: layoutOK_def)
    let ?r1 = "flipClipping (r\<lparr>rcData := Loc (unat (localBufferAllocationOffset r)),
                      rcQuality := Loc (unat (localBufferAllocationOffset r) + unat (unclippedLength r)),
                      localBufferAllocationOffset :=
                        localBufferAllocationOffset r + unclippedLength r + unclippedLength r,
                      localBuffer := lb,
                      unclippedData := Loc (unat (localBufferAllocationOffset r)),
                      unclippedQuality := Loc (unat (localBufferAllocationOffset r) + unat (unclippedLength r)),
                      currentReadDirection := RC\<rparr>)"
    let ?r2 = "flipClipping (?r1\<lparr>unclippedData :=
                           (if upcaseForwardRead ?r1 \<noteq> NULL then upcaseForwardRead ?r1
                            else externalData ?r1),
                         unclippedQuality := externalQuality ?r1,
                         currentReadDirection := FORWARD\<rparr>)"
    have "currentReadDirection ?r1 = RC"
      by (simp add: flipClipping_def Let_def)
    from becomeRC_toForward [OF this, of t mem]
    have second: "becomeRC t (becomeRC t (mem, r)) = (mem, ?r2)"
      by (simp add: first)
    have fields: "unclippedData ?r2 = unclippedData r" "unclippedQuality ?r2 = unclippedQuality r"
      "frontClippedLength ?r2 = frontClippedLength r" "dataLength ?r2 = dataLength r"
      "unclippedLength ?r2 = unclippedLength r" "data ?r2 = data r" "quality ?r2 = quality r"
      "currentReadDirection ?r2 = currentReadDirection r" "clippingState ?r2 = clippingState r"
      "originalFrontClipping ?r2 = originalFrontClipping r"
      "originalBackClipping ?r2 = originalBackClipping r"
      "originalFrontHardClipping ?r2 = originalFrontHardClipping r"
      "originalBackHardClipping ?r2 = originalBackHardClipping r"
      "localBuffer ?r2 = lb"
      using fw fresh(1) inv(1,2) by (simp_all add: flipClipping_def Let_def)
    have bytesU: "peek t (mem, ?r2) (ptrAdd (unclippedData r) i) = peek t (mem, r) (ptrAdd (unclippedData r) i)"
      if "i < unat (unclippedLength r)" for i
      using up that keep fields(14) inBuffer [OF that] by (auto simp: fw ext)
    have bytesQ: "peek t (mem, ?r2) (ptrAdd (unclippedQuality r) i) = peek t (mem, r) (ptrAdd (unclippedQuality r) i)" for i
      by (simp add: fw ext)
    have bytesD: "peek t (mem, ?r2) (ptrAdd (data r) i) = peek t (mem, r) (ptrAdd (data r) i)"
      if "i < unat (dataLength r)" for i
    proof -
      have "ptrAdd (data r) i = ptrAdd (unclippedData r) (unat (frontClippedLength r) + i)"
        by (cases "unclippedData r") (simp_all add: inv(1))
      moreover have "unat (frontClippedLength r) + i < unat (unclippedLength r)"
        using that inv(3) by simp
      ultimately show ?thesis using bytesU by simp
    qed
    have bytesDQ: "peek t (mem, ?r2) (ptrAdd (quality r) i) = peek t (mem, r) (ptrAdd (quality r) i)" for i
      by (simp add: inv(2) fw ext)
    have "readView t (mem, ?r2) = readView t (mem, r)"
      unfolding readView_def Let_def snd_conv fields
      using spanBytes_cong [of "unat (unclippedLength r)" t "(mem, ?r2)" "unclippedData r" "(mem, r)", OF bytesU]
        spanBytes_cong [of "unat (unclippedLength r)" t "(mem, ?r2)" "unclippedQuality r" "(mem, r)", OF bytesQ]
        spanBytes_cong [of "unat (dataLength r)" t "(mem, ?r2)" "data r" "(mem, r)", OF bytesD]
        spanBytes_cong [of "unat (dataLength r)" t "(mem, ?r2)" "quality r" "(mem, r)", OF bytesDQ]
      by simp
    with second show ?thesis by simp
  qed
qed

section \<open>Read: what clip trims\<close>

text \<open>The number of bytes equal to the sentinel \<open>'#'\<close> at the head of a list.\<close>

definition sentinelRun :: "char list \<Rightarrow> nat" where
  "sentinelRun qs = length (takeWhile (\<lambda>c. c = CHR ''#'') qs)"



lemma sentinelRun_Nil [simp]: "sentinelRun [] = 0"
  by (simp add: sentinelRun_def)










section \<open>The claims about Read\<close>



subsection \<open>C5: clip recomputes from the unclipped baseline\<close>



subsection \<open>C7: the invariant of the lengths and pointers\<close>








section \<open>Stores past the end of localBuffer\<close>

lemma behind_putBehind [simp]: "behind (putBehind b r) = b"
  by (simp add: behind_def putBehind_def)

lemma putBehind_putBehind [simp]: "putBehind b' (putBehind b r) = putBehind b' r"
  by (simp add: putBehind_def)

lemma putBehind_fields [simp]:
  "localBufferAllocationOffset (putBehind b r) = m_localBufferAllocationOffset b"
  "upcaseForwardRead (putBehind b r) = m_upcaseForwardRead b"
  "rcData (putBehind b r) = m_rcData b"
  "rcQuality (putBehind b r) = m_rcQuality b"
  "externalData (putBehind b r) = m_externalData b"
  "externalQuality (putBehind b r) = m_externalQuality b"
  "currentReadDirection (putBehind b r) = m_currentReadDirection b"
  "localBuffer (putBehind b r) = localBuffer r"
  "data (putBehind b r) = data r" "quality (putBehind b r) = quality r"
  "unclippedData (putBehind b r) = unclippedData r"
  "unclippedQuality (putBehind b r) = unclippedQuality r"
  "unclippedLength (putBehind b r) = unclippedLength r"
  "dataLength (putBehind b r) = dataLength r"
  "frontClippedLength (putBehind b r) = frontClippedLength r"
  by (simp_all add: putBehind_def)

lemma behind_localBuffer [simp]: "behind (r\<lparr>localBuffer := lb\<rparr>) = behind r"
  by (simp add: behind_def)

lemma putBehind_localBuffer:
  "(putBehind b r)\<lparr>localBuffer := lb\<rparr> = putBehind b (r\<lparr>localBuffer := lb\<rparr>)"
  by (simp add: putBehind_def)

lemma upcase_past_end:
  assumes "upcaseForwardRead r = Loc 0" "data r = Ext addr" "localBufferLength \<le> i"
  shows "upcaseLoopBody t i (mem, r) =
     (mem, putBehind (storePastEnd t (i - localBufferLength)
                        (TO_UPPER_CASE t (mem (addr + i))) (behind r)) r)"
  using assms by (simp add: upcaseLoopBody_def)

lemma rc_past_end:
  assumes "rcData r = Loc a" "rcQuality r = Loc b"
    and "unclippedData r = Ext x" "unclippedQuality r = Ext y"
    and "a + i < localBufferLength"
    and "localBufferLength \<le> b + (unat (unclippedLength r) - i - 1)"
  shows "rcLoopBody t i (mem, r) =
     (mem, putBehind
        (storePastEnd t (b + (unat (unclippedLength r) - i - 1) - localBufferLength)
           (mem (y + i)) (behind r))
        (r\<lparr>localBuffer := (localBuffer r)
             (a + i := COMPLEMENT t (mem (x + (unat (unclippedLength r) - i - 1))))\<rparr>))"
  using assms by (simp add: rcLoopBody_def Let_def)

text \<open>The fields \<open>init\<close> sets before it looks at the bases.\<close>

definition initFields :: "InitArguments \<Rightarrow> Read \<Rightarrow> Read" where
  "initFields a r0 = r0\<lparr>
           id_ptr := i_id a,
           idLength := i_idLength a,
           data := i_data a, unclippedData := i_data a, externalData := i_data a,
           quality := i_quality a, unclippedQuality := i_quality a,
           externalQuality := i_quality a,
           dataLength := i_dataLength a,
           unclippedLength := i_dataLength a,
           frontClippedLength := 0,
           clippingState := NoClipping,
           originalAlignedLocation := i_originalAlignedLocation a,
           originalMAPQ := i_originalMAPQ a,
           originalSAMFlags := i_originalSAMFlags a,
           originalFrontClipping := i_originalFrontClipping a,
           originalBackClipping := i_originalBackClipping a,
           originalFrontHardClipping := i_originalFrontHardClipping a,
           originalBackHardClipping := i_originalBackHardClipping a,
           originalRNEXT := i_originalRNEXT a,
           originalRNEXTLength := i_originalRNEXTLength a,
           originalPNEXT := i_originalPNEXT a,
           currentReadDirection := FORWARD,
           localBufferAllocationOffset := 0,
           upcaseForwardRead := NULL, rcData := NULL, rcQuality := NULL\<rparr>"

lemma init_with_lower_case:
  assumes "i_data a = Ext addr"
    and "\<not> list_all (\<lambda>i. IS_LOWER_CASE t (mem (addr + i)) = 0) [0..<unat (i_dataLength a)]"
  shows "init t a (mem, r) =
     (let s3 = fold (upcaseLoopBody t) [0..<unat (i_dataLength a)]
                 (mem, (initFields a r)\<lparr>upcaseForwardRead := Loc 0,
                          localBufferAllocationOffset := i_dataLength a\<rparr>)
      in (fst s3, (snd s3)\<lparr>unclippedData := upcaseForwardRead (snd s3),
                               data := upcaseForwardRead (snd s3)\<rparr>))"
  using assms by (simp add: init_def Let_def fold_or_zero initFields_def)

lemma fold_upcase_split:
  assumes "upcaseForwardRead r = Loc 0" "data r = Ext addr"
  shows "fold (upcaseLoopBody t) [0..<localBufferLength + k] (mem, r) =
     fold (upcaseLoopBody t) [localBufferLength..<localBufferLength + k]
       (mem, r\<lparr>localBuffer := (\<lambda>j. if j < localBufferLength then TO_UPPER_CASE t (mem (addr + j))
                                   else localBuffer r j)\<rparr>)"
proof -
  have "[0..<localBufferLength + k] = [0..<localBufferLength] @ [localBufferLength..<localBufferLength + k]"
    using upt_add_eq_append [of 0 localBufferLength k] by simp
  then show ?thesis
    using fold_upcase [OF assms upt_in_buffer [OF order_refl], of t mem]
    by simp
qed

lemma putBehind_behind [simp]: "putBehind (behind r) r = r"
  by (simp add: putBehind_def behind_def)

lemma upcase_step:
  assumes "m_upcaseForwardRead b = Loc 0" "data r = Ext addr" "localBufferLength \<le> i"
  shows "upcaseLoopBody t i (mem, putBehind b r) =
     (mem, putBehind (storePastEnd t (i - localBufferLength)
                        (TO_UPPER_CASE t (mem (addr + i))) b) r)"
  using upcase_past_end [of "putBehind b r" addr i t mem] assms by simp

subsection \<open>C10: a lower-case read longer than localBuffer\<close>

text \<open>
  A caller buffer with the base \<open>c\<close> followed by \<open>a\<close>s, and the call of \<open>init\<close> for a read
  of 1505 bases in it.
\<close>

definition longLowerCase :: "nat \<Rightarrow> char" where
  "longLowerCase a = (if a = 0 then CHR ''c'' else CHR ''a'')"

definition longArgs :: InitArguments where
  "longArgs = \<lparr>i_id = Ext 4000, i_idLength = 1, i_data = Ext 0,
       i_quality = Ext 2000, i_dataLength = 1505,
       i_originalAlignedLocation = - 1, i_originalMAPQ = - 1, i_originalSAMFlags = 0,
       i_originalFrontClipping = 0, i_originalBackClipping = 0,
       i_originalFrontHardClipping = 0, i_originalBackHardClipping = 0,
       i_originalRNEXT = NULL, i_originalRNEXTLength = 0, i_originalPNEXT = 0\<rparr>"

text \<open>
  Claim C10, at a copy that does not fit. The read has 1505 bases, the first one lower
  case, so \<open>init\<close> copies it upper-cased into \<open>localBuffer\<close>, which has 1500 bytes; nothing
  in \<open>init\<close> compares the length with \<open>localBufferLength\<close>. The last five stores of the
  copy fall on \<open>localBufferAllocationOffset\<close> and on the low byte of \<open>upcaseForwardRead\<close>.
  Afterwards the allocation offset is 0x41414141 and not the length of the read,
  \<open>getData()\<close> is \<open>localBuffer + 65\<close> and not \<open>localBuffer\<close>, and its first byte is \<open>A\<close>
  where the upper-cased read begins with \<open>C\<close>.
\<close>

theorem init_overruns_localBuffer:
  "data (snd (init samplePlatform longArgs (longLowerCase, blankRead))) = Loc 65 \<and>
   upcaseForwardRead (snd (init samplePlatform longArgs (longLowerCase, blankRead))) = Loc 65 \<and>
   localBufferAllocationOffset (snd (init samplePlatform longArgs (longLowerCase, blankRead)))
     = 1094795585 \<and>
   peek samplePlatform (init samplePlatform longArgs (longLowerCase, blankRead))
     (data (snd (init samplePlatform longArgs (longLowerCase, blankRead)))) = CHR ''A'' \<and>
   TO_UPPER_CASE samplePlatform (longLowerCase 0) = CHR ''C''"
proof -
  define R where "R = (initFields longArgs blankRead)\<lparr>upcaseForwardRead := Loc 0,
                          localBufferAllocationOffset := i_dataLength longArgs\<rparr>"
  define RP where "RP = R\<lparr>localBuffer := (\<lambda>j. if j < localBufferLength
      then TO_UPPER_CASE samplePlatform (longLowerCase (0 + j)) else localBuffer R j)\<rparr>"
  define b0 where "b0 = behind RP"
  define b1 where "b1 = sampleStore 0 (CHR ''A'') b0"
  define b2 where "b2 = sampleStore 1 (CHR ''A'') b1"
  define b3 where "b3 = sampleStore 2 (CHR ''A'') b2"
  define b4 where "b4 = sampleStore 3 (CHR ''A'') b3"
  define b5 where "b5 = sampleStore 4 (CHR ''A'') b4"
  have a: "i_data longArgs = Ext 0" "unat (i_dataLength longArgs) = localBufferLength + 5"
    by (simp_all add: longArgs_def localBufferLength_def MAX_READ_LENGTH_def)
  have L: "localBufferLength = 1500"
    by (simp add: localBufferLength_def MAX_READ_LENGTH_def)
  have lower: "IS_LOWER_CASE samplePlatform (longLowerCase 0) \<noteq> 0"
    by (simp add: samplePlatform_def sampleTables_def longLowerCase_def)
  have "\<not> list_all (\<lambda>i. IS_LOWER_CASE samplePlatform (longLowerCase (0 + i)) = 0)
      [0..<unat (i_dataLength longArgs)]"
    using lower by (auto simp: list_all_iff a(2) intro: bexI [of _ 0])
  from init_with_lower_case [OF a(1) this, of blankRead]
  have i: "init samplePlatform longArgs (longLowerCase, blankRead) =
     (let s3 = fold (upcaseLoopBody samplePlatform) [0..<localBufferLength + 5] (longLowerCase, R)
      in (fst s3, (snd s3)\<lparr>unclippedData := upcaseForwardRead (snd s3),
                               data := upcaseForwardRead (snd s3)\<rparr>))"
    by (simp add: R_def a(2))
  have R: "upcaseForwardRead R = Loc 0" "data R = Ext 0"
    by (simp_all add: R_def initFields_def longArgs_def)
  have RP: "data RP = Ext 0"
    by (simp add: RP_def R)
  have split: "fold (upcaseLoopBody samplePlatform) [0..<localBufferLength + 5] (longLowerCase, R) =
     fold (upcaseLoopBody samplePlatform) [localBufferLength..<localBufferLength + 5]
       (longLowerCase, putBehind b0 RP)"
  proof -
    have "putBehind b0 RP = RP"
      by (simp add: b0_def)
    then show ?thesis
      using fold_upcase_split [OF R, of samplePlatform 5 longLowerCase]
      by (simp only: RP_def [symmetric])
  qed
  have tail: "[localBufferLength..<localBufferLength + 5] = [1500, 1501, 1502, 1503, 1504]"
    unfolding L by (simp add: upt_conv_Cons)
  have b0: "b0 = \<lparr>m_localBufferAllocationOffset = 1505, m_upcaseForwardRead = Loc 0,
      m_rcData = NULL, m_rcQuality = NULL, m_externalData = Ext 0, m_externalQuality = Ext 2000,
      m_currentReadDirection = FORWARD, m_batch = 0\<rparr>"
    by (simp add: b0_def RP_def R_def behind_def initFields_def longArgs_def blankRead_def)
  have up: "m_upcaseForwardRead b0 = Loc 0" "m_upcaseForwardRead b1 = Loc 0"
    "m_upcaseForwardRead b2 = Loc 0" "m_upcaseForwardRead b3 = Loc 0"
    "m_upcaseForwardRead b4 = Loc 0"
    unfolding b4_def b3_def b2_def b1_def b0 by (simp_all add: sampleStore_def)
  have b5: "m_upcaseForwardRead b5 = Loc 65" "m_localBufferAllocationOffset b5 = 1094795585"
    unfolding b5_def b4_def b3_def b2_def b1_def b0
    by (simp_all add: sampleStore_def setByte_def pointerAt_def sampleBase_def L)
  have "TO_UPPER_CASE samplePlatform (CHR ''a'') = CHR ''A''"
    by code_simp
  then have c: "TO_UPPER_CASE samplePlatform (longLowerCase i) = CHR ''A''" if "0 < i" for i
    using that by (simp add: longLowerCase_def)
  have st: "storePastEnd samplePlatform = sampleStore"
    by (simp add: samplePlatform_def)
  have step:
    "upcaseLoopBody samplePlatform 1500 (longLowerCase, putBehind b0 RP) = (longLowerCase, putBehind b1 RP)"
    "upcaseLoopBody samplePlatform 1501 (longLowerCase, putBehind b1 RP) = (longLowerCase, putBehind b2 RP)"
    "upcaseLoopBody samplePlatform 1502 (longLowerCase, putBehind b2 RP) = (longLowerCase, putBehind b3 RP)"
    "upcaseLoopBody samplePlatform 1503 (longLowerCase, putBehind b3 RP) = (longLowerCase, putBehind b4 RP)"
    "upcaseLoopBody samplePlatform 1504 (longLowerCase, putBehind b4 RP) = (longLowerCase, putBehind b5 RP)"
    using upcase_step [OF up(1) RP, of 1500 samplePlatform longLowerCase]
      upcase_step [OF up(2) RP, of 1501 samplePlatform longLowerCase]
      upcase_step [OF up(3) RP, of 1502 samplePlatform longLowerCase]
      upcase_step [OF up(4) RP, of 1503 samplePlatform longLowerCase]
      upcase_step [OF up(5) RP, of 1504 samplePlatform longLowerCase]
    by (simp_all add: L c st b1_def b2_def b3_def b4_def b5_def)
  have s3: "fold (upcaseLoopBody samplePlatform) [0..<localBufferLength + 5] (longLowerCase, R)
      = (longLowerCase, putBehind b5 RP)"
    unfolding split tail by (simp only: fold_simps step o_apply)
  have res: "init samplePlatform longArgs (longLowerCase, blankRead)
      = (longLowerCase, (putBehind b5 RP)\<lparr>unclippedData := Loc 65, data := Loc 65\<rparr>)"
    by (simp add: i s3 b5)
  have "localBuffer RP 65 = CHR ''A''"
    using c [of 65] by (simp add: RP_def L)
  moreover have "TO_UPPER_CASE samplePlatform (longLowerCase 0) = CHR ''C''"
    by code_simp
  ultimately show ?thesis
    unfolding res by (simp add: b5 L)
qed

lemma init_without_lower_case:
  assumes "i_data a = Ext addr"
    and "list_all (\<lambda>i. IS_LOWER_CASE t (mem (addr + i)) = 0) [0..<unat (i_dataLength a)]"
  shows "init t a (mem, r) = (mem, initFields a r)"
  using assms by (simp add: init_def Let_def fold_or_zero initFields_def)

lemma rc_step:
  assumes "m_rcData b = Loc a" "m_rcQuality b = Loc q"
    and "unclippedData r = Ext x" "unclippedQuality r = Ext y"
    and "a + i < localBufferLength"
    and "localBufferLength \<le> q + (unat (unclippedLength r) - i - 1)"
  shows "rcLoopBody t i (mem, putBehind b r) =
     (mem, putBehind
        (storePastEnd t (q + (unat (unclippedLength r) - i - 1) - localBufferLength)
           (mem (y + i)) b)
        (r\<lparr>localBuffer := (localBuffer r)
             (a + i := COMPLEMENT t (mem (x + (unat (unclippedLength r) - i - 1))))\<rparr>))"
  using rc_past_end [of "putBehind b r" a q x y i t mem] assms
  by (simp add: putBehind_localBuffer)

lemma rc_step_at:
  assumes "m_rcData b = Loc a" "m_rcQuality b = Loc q"
    and "unclippedData r = Ext x" "unclippedQuality r = Ext y"
    and "k = a + i" "k < localBufferLength"
    and "localBufferLength + j = q + (unat (unclippedLength r) - i - 1)"
    and "cq = mem (y + i)"
    and "cd = COMPLEMENT t (mem (x + (unat (unclippedLength r) - i - 1)))"
    and "f' = f(k := cd)" "b' = storePastEnd t j cq b"
  shows "rcLoopBody t i (mem, putBehind b (r\<lparr>localBuffer := f\<rparr>))
     = (mem, putBehind b' (r\<lparr>localBuffer := f'\<rparr>))"
proof -
  have j: "j = q + (unat (unclippedLength r) - i - 1) - localBufferLength"
    using assms(7) by simp
  have le: "localBufferLength \<le> q + (unat (unclippedLength (r\<lparr>localBuffer := f\<rparr>)) - i - 1)"
    using assms(7) by simp
  show ?thesis
    using rc_step [of b a q "r\<lparr>localBuffer := f\<rparr>" x y i t mem] assms(1-6) le
    by (simp add: j assms(8-11))
qed

subsection \<open>C6: a read longer than half of localBuffer\<close>

text \<open>
  A caller buffer with the base \<open>A\<close> in its first 2000 bytes and the quality \<open>I\<close> behind,
  and the call of \<open>init\<close> for a read of 753 bases in it.
\<close>

definition longUpperCase :: "nat \<Rightarrow> char" where
  "longUpperCase a = (if a < 2000 then CHR ''A'' else CHR ''I'')"

definition longReadArgs :: InitArguments where
  "longReadArgs = \<lparr>i_id = Ext 4000, i_idLength = 1, i_data = Ext 0,
       i_quality = Ext 2000, i_dataLength = 753,
       i_originalAlignedLocation = - 1, i_originalMAPQ = - 1, i_originalSAMFlags = 0,
       i_originalFrontClipping = 0, i_originalBackClipping = 0,
       i_originalFrontHardClipping = 0, i_originalBackHardClipping = 0,
       i_originalRNEXT = NULL, i_originalRNEXTLength = 0, i_originalPNEXT = 0\<rparr>"

lemma longRead_init:
  "init samplePlatform longReadArgs (longUpperCase, blankRead)
     = (longUpperCase, initFields longReadArgs blankRead)"
proof -
  have "IS_LOWER_CASE samplePlatform (CHR ''A'') = 0"
    by (simp add: samplePlatform_def sampleTables_def)
  then have "list_all (\<lambda>i. IS_LOWER_CASE samplePlatform (longUpperCase (0 + i)) = 0)
      [0..<unat (i_dataLength longReadArgs)]"
    by (simp add: list_all_iff longUpperCase_def longReadArgs_def del: upt_rec_numeral)
  moreover have "i_data longReadArgs = Ext 0"
    by (simp add: longReadArgs_def)
  ultimately show ?thesis
    by (rule init_without_lower_case [rotated])
qed

lemma longRead_turn:
  "\<exists>lb. turn samplePlatform (longUpperCase, initFields longReadArgs blankRead) =
     (longUpperCase, (initFields longReadArgs blankRead)
        \<lparr>rcData := Loc 0, rcQuality := Loc 753,
         localBufferAllocationOffset := 1229539657, upcaseForwardRead := Ext 18761,
         localBuffer := lb,
         unclippedData := Loc 0, unclippedQuality := Loc 753, currentReadDirection := RC\<rparr>)"
proof -
  define r0 where "r0 = initFields longReadArgs blankRead"
  define r1 where "r1 = r0\<lparr>rcData := Loc 0, rcQuality := Loc 753,
      localBufferAllocationOffset := 1506\<rparr>"
  have L: "localBufferLength = 1500"
    by (simp add: localBufferLength_def MAX_READ_LENGTH_def)
  have r0: "currentReadDirection r0 = FORWARD" "rcData r0 = NULL"
    "localBufferAllocationOffset r0 = 0" "unclippedLength r0 = 753"
    by (simp_all add: r0_def initFields_def longReadArgs_def)
  have t: "turn samplePlatform (longUpperCase, r0) =
     (let s2 = fold (rcLoopBody samplePlatform) [0..<753] (longUpperCase, r1)
      in (fst s2, (snd s2)\<lparr>unclippedData := rcData (snd s2),
                               unclippedQuality := rcQuality (snd s2),
                               currentReadDirection := RC\<rparr>))"
    by (simp add: turn_def Let_def r0 r1_def del: upt_rec_numeral)
  define b0 where "b0 = behind r1"
  define b1 where "b1 = sampleStore 5 (CHR ''I'') b0"
  define b2 where "b2 = sampleStore 4 (CHR ''I'') b1"
  define b3 where "b3 = sampleStore 3 (CHR ''I'') b2"
  define b4 where "b4 = sampleStore 2 (CHR ''I'') b3"
  define b5 where "b5 = sampleStore 1 (CHR ''I'') b4"
  define b6 where "b6 = sampleStore 0 (CHR ''I'') b5"
  have b0: "b0 = \<lparr>m_localBufferAllocationOffset = 1506, m_upcaseForwardRead = NULL,
      m_rcData = Loc 0, m_rcQuality = Loc 753, m_externalData = Ext 0, m_externalQuality = Ext 2000,
      m_currentReadDirection = FORWARD, m_batch = 0\<rparr>"
    by (simp add: b0_def r1_def r0_def behind_def initFields_def longReadArgs_def blankRead_def)
  have rcd: "m_rcData b0 = Loc 0" "m_rcData b1 = Loc 0" "m_rcData b2 = Loc 0"
    "m_rcData b3 = Loc 0" "m_rcData b4 = Loc 0" "m_rcData b5 = Loc 0" "m_rcData b6 = Loc 0"
    unfolding b6_def b5_def b4_def b3_def b2_def b1_def b0 by (simp_all add: sampleStore_def)
  have rcq: "m_rcQuality b0 = Loc 753" "m_rcQuality b1 = Loc 753" "m_rcQuality b2 = Loc 753"
    "m_rcQuality b3 = Loc 753" "m_rcQuality b4 = Loc 753" "m_rcQuality b5 = Loc 753"
    "m_rcQuality b6 = Loc 753"
    unfolding b6_def b5_def b4_def b3_def b2_def b1_def b0 by (simp_all add: sampleStore_def)
  have b6: "b6 = \<lparr>m_localBufferAllocationOffset = 1229539657, m_upcaseForwardRead = Ext 18761,
      m_rcData = Loc 0, m_rcQuality = Loc 753, m_externalData = Ext 0, m_externalQuality = Ext 2000,
      m_currentReadDirection = FORWARD, m_batch = 0\<rparr>"
    unfolding b6_def b5_def b4_def b3_def b2_def b1_def b0
    by (simp add: sampleStore_def setByte_def pointerAt_def sampleBase_def L)
  define c where "c = COMPLEMENT samplePlatform (CHR ''A'')"
  define f0 where "f0 = localBuffer r1"
  define f1 where "f1 = f0(0 := c)"
  define f2 where "f2 = f1(1 := c)"
  define f3 where "f3 = f2(2 := c)"
  define f4 where "f4 = f3(3 := c)"
  define f5 where "f5 = f4(4 := c)"
  define f6 where "f6 = f5(5 := c)"
  have src: "unclippedData r1 = Ext 0" "unclippedQuality r1 = Ext 2000"
    by (simp_all add: r1_def r0_def initFields_def longReadArgs_def)
  have n: "unat (unclippedLength r1) = 753"
    by (simp add: r1_def r0_def initFields_def longReadArgs_def)
  have st: "storePastEnd samplePlatform = sampleStore"
    by (simp add: samplePlatform_def)
  have m: "longUpperCase 2000 = CHR ''I''" "longUpperCase 2001 = CHR ''I''"
    "longUpperCase 2002 = CHR ''I''" "longUpperCase 2003 = CHR ''I''"
    "longUpperCase 2004 = CHR ''I''" "longUpperCase 2005 = CHR ''I''"
    "longUpperCase 752 = CHR ''A''" "longUpperCase 751 = CHR ''A''"
    "longUpperCase 750 = CHR ''A''" "longUpperCase 749 = CHR ''A''"
    "longUpperCase 748 = CHR ''A''" "longUpperCase 747 = CHR ''A''"
    by (simp_all add: longUpperCase_def)
  have step0: "rcLoopBody samplePlatform 0 (longUpperCase, putBehind b0 (r1\<lparr>localBuffer := f0\<rparr>))
       = (longUpperCase, putBehind b1 (r1\<lparr>localBuffer := f1\<rparr>))"
    by (rule rc_step_at [OF rcd(1) rcq(1) src, where k = 0 and j = 5 and cq = "CHR ''I''"
          and cd = c])
      (simp_all add: L n m c_def f1_def b1_def st)
  have step1: "rcLoopBody samplePlatform 1 (longUpperCase, putBehind b1 (r1\<lparr>localBuffer := f1\<rparr>))
       = (longUpperCase, putBehind b2 (r1\<lparr>localBuffer := f2\<rparr>))"
    by (rule rc_step_at [OF rcd(2) rcq(2) src, where k = 1 and j = 4 and cq = "CHR ''I''"
          and cd = c])
      (simp_all add: L n m c_def f2_def b2_def st)
  have step2: "rcLoopBody samplePlatform 2 (longUpperCase, putBehind b2 (r1\<lparr>localBuffer := f2\<rparr>))
       = (longUpperCase, putBehind b3 (r1\<lparr>localBuffer := f3\<rparr>))"
    by (rule rc_step_at [OF rcd(3) rcq(3) src, where k = 2 and j = 3 and cq = "CHR ''I''"
          and cd = c])
      (simp_all add: L n m c_def f3_def b3_def st)
  have step3: "rcLoopBody samplePlatform 3 (longUpperCase, putBehind b3 (r1\<lparr>localBuffer := f3\<rparr>))
       = (longUpperCase, putBehind b4 (r1\<lparr>localBuffer := f4\<rparr>))"
    by (rule rc_step_at [OF rcd(4) rcq(4) src, where k = 3 and j = 2 and cq = "CHR ''I''"
          and cd = c])
      (simp_all add: L n m c_def f4_def b4_def st)
  have step4: "rcLoopBody samplePlatform 4 (longUpperCase, putBehind b4 (r1\<lparr>localBuffer := f4\<rparr>))
       = (longUpperCase, putBehind b5 (r1\<lparr>localBuffer := f5\<rparr>))"
    by (rule rc_step_at [OF rcd(5) rcq(5) src, where k = 4 and j = 1 and cq = "CHR ''I''"
          and cd = c])
      (simp_all add: L n m c_def f5_def b5_def st)
  have step5: "rcLoopBody samplePlatform 5 (longUpperCase, putBehind b5 (r1\<lparr>localBuffer := f5\<rparr>))
       = (longUpperCase, putBehind b6 (r1\<lparr>localBuffer := f6\<rparr>))"
    by (rule rc_step_at [OF rcd(6) rcq(6) src, where k = 5 and j = 0 and cq = "CHR ''I''"
          and cd = c])
      (simp_all add: L n m c_def f6_def b6_def st)
  note step = step0 step1 step2 step3 step4 step5
  have head: "fold (rcLoopBody samplePlatform) [0..<6]
        (longUpperCase, putBehind b0 (r1\<lparr>localBuffer := f0\<rparr>))
      = (longUpperCase, putBehind b6 (r1\<lparr>localBuffer := f6\<rparr>))"
  proof -
    have "[0..<6] = [0, 1, 2, 3, 4, 5::nat]"
      by (simp add: upt_conv_Cons)
    then show ?thesis
      by (simp only: fold_simps step o_apply)
  qed
  define r6 where "r6 = putBehind b6 (r1\<lparr>localBuffer := f6\<rparr>)"
  have r6: "rcData r6 = Loc 0" "rcQuality r6 = Loc 753" "unat (unclippedLength r6) = 753"
    by (simp_all add: r6_def rcd rcq n)
  have "list_all (\<lambda>i. 0 + i < localBufferLength \<and>
           753 + (unat (unclippedLength r6) - i - 1) < localBufferLength) [6..<753]"
    by (auto simp: list_all_iff r6 L simp del: upt_rec_numeral)
  from fold_rc_fields [OF r6(1,2) this, of samplePlatform longUpperCase] obtain lb where
    rest: "fold (rcLoopBody samplePlatform) [6..<753] (longUpperCase, r6)
        = (longUpperCase, r6\<lparr>localBuffer := lb\<rparr>)"
    by blast
  have "[0..<753] = [0..<6] @ [6..<753]"
    using upt_add_eq_append [of 0 6 747] by (simp del: upt_rec_numeral)
  moreover have "putBehind b0 (r1\<lparr>localBuffer := f0\<rparr>) = r1"
    by (simp add: b0_def f0_def)
  ultimately have all: "fold (rcLoopBody samplePlatform) [0..<753] (longUpperCase, r1)
      = (longUpperCase, r6\<lparr>localBuffer := lb\<rparr>)"
    using head rest by (simp add: r6_def del: upt_rec_numeral)
  have "turn samplePlatform (longUpperCase, r0) =
     (longUpperCase, (r6\<lparr>localBuffer := lb\<rparr>)\<lparr>unclippedData := Loc 0,
         unclippedQuality := Loc 753, currentReadDirection := RC\<rparr>)"
    unfolding t all by (simp add: r6 del: upt_rec_numeral)
  also have "(r6\<lparr>localBuffer := lb\<rparr>)\<lparr>unclippedData := Loc 0,
         unclippedQuality := Loc 753, currentReadDirection := RC\<rparr>
     = r0\<lparr>rcData := Loc 0, rcQuality := Loc 753,
         localBufferAllocationOffset := 1229539657, upcaseForwardRead := Ext 18761,
         localBuffer := lb,
         unclippedData := Loc 0, unclippedQuality := Loc 753, currentReadDirection := RC\<rparr>"
    unfolding r6_def b6 r1_def
    by (simp add: putBehind_def r0_def initFields_def longReadArgs_def blankRead_def)
  finally show ?thesis
    unfolding r0_def by blast
qed

text \<open>
  Claim C6, at a read that does not fit. The FASTQ reader hands \<open>init\<close> a read of 753
  upper-case bases; \<open>becomeRC\<close> takes 2 * 753 bytes of \<open>localBuffer\<close>, which has 1500, so
  that the assertion \<open>localBufferAllocationOffset <= localBufferLength\<close> of \<open>becomeRC\<close>
  is false, and the last six stores of the quality copy fall on
  \<open>localBufferAllocationOffset\<close> and on the two low bytes of \<open>upcaseForwardRead\<close>. The second
  call finds \<open>upcaseForwardRead\<close> not NULL and takes it for the forward data: \<open>getData()\<close>
  is then the address 18761 and not the caller's buffer, and its first byte is a quality
  byte.
\<close>

theorem becomeRC_twice_overruns_localBuffer:
  "let s0 = init samplePlatform longReadArgs (longUpperCase, blankRead);
       s1 = becomeRC samplePlatform s0;
       s2 = becomeRC samplePlatform s1
   in unclippedLength (snd s0) = 753 \<and>
      data (snd s0) = Ext 0 \<and> peek samplePlatform s0 (data (snd s0)) = CHR ''A'' \<and>
      localBufferAllocationOffset (snd s1) = 1229539657 \<and>
      upcaseForwardRead (snd s0) = NULL \<and> upcaseForwardRead (snd s1) = Ext 18761 \<and>
      currentReadDirection (snd s2) = FORWARD \<and>
      data (snd s2) = Ext 18761 \<and> peek samplePlatform s2 (data (snd s2)) = CHR ''I'' \<and>
      readView samplePlatform s2 \<noteq> readView samplePlatform s0"
proof -
  define r0 where "r0 = initFields longReadArgs blankRead"
  obtain lb where t: "turn samplePlatform (longUpperCase, r0) =
     (longUpperCase, r0\<lparr>rcData := Loc 0, rcQuality := Loc 753,
         localBufferAllocationOffset := 1229539657, upcaseForwardRead := Ext 18761,
         localBuffer := lb,
         unclippedData := Loc 0, unclippedQuality := Loc 753, currentReadDirection := RC\<rparr>)"
    using longRead_turn unfolding r0_def by blast
  define r1 where "r1 = flipClipping (r0\<lparr>rcData := Loc 0, rcQuality := Loc 753,
         localBufferAllocationOffset := 1229539657, upcaseForwardRead := Ext 18761,
         localBuffer := lb,
         unclippedData := Loc 0, unclippedQuality := Loc 753, currentReadDirection := RC\<rparr>)"
  have s0: "init samplePlatform longReadArgs (longUpperCase, blankRead) = (longUpperCase, r0)"
    by (simp add: longRead_init r0_def)
  have s1: "becomeRC samplePlatform (longUpperCase, r0) = (longUpperCase, r1)"
    by (simp add: becomeRC_unfold t r1_def)
  have f0: "unclippedLength r0 = 753" "data r0 = Ext 0" "upcaseForwardRead r0 = NULL"
    "dataLength r0 = 753" "frontClippedLength r0 = 0" "externalQuality r0 = Ext 2000"
    by (simp_all add: r0_def initFields_def longReadArgs_def)
  have f1: "currentReadDirection r1 = RC" "upcaseForwardRead r1 = Ext 18761"
    "localBufferAllocationOffset r1 = 1229539657" "unclippedLength r1 = 753"
    "dataLength r1 = 753" "frontClippedLength r1 = 0" "externalQuality r1 = Ext 2000"
    by (simp_all add: r1_def flipClipping_def Let_def f0)
  define r2 where "r2 = flipClipping (r1\<lparr>unclippedData := Ext 18761,
      unclippedQuality := Ext 2000, currentReadDirection := FORWARD\<rparr>)"
  have s2: "becomeRC samplePlatform (longUpperCase, r1) = (longUpperCase, r2)"
    using becomeRC_toForward [OF f1(1), of samplePlatform longUpperCase]
    by (simp add: f1 r2_def)
  have f2: "currentReadDirection r2 = FORWARD" "data r2 = Ext 18761"
    by (simp_all add: r2_def flipClipping_def Let_def f1)
  have p0: "peek samplePlatform (longUpperCase, r0) (Ext 0) = CHR ''A''"
    by (simp add: longUpperCase_def)
  have p2: "peek samplePlatform (longUpperCase, r2) (Ext 18761) = CHR ''I''"
    by (simp add: longUpperCase_def)
  have v: "readView samplePlatform (longUpperCase, r2) \<noteq> readView samplePlatform (longUpperCase, r0)"
    by (simp add: readView_def Let_def f0 f2)
  show ?thesis
    unfolding Let_def s0 s1 s2 using f0 f1 f2 p0 p2 v by simp
qed

subsection \<open>Reads that fit\<close>

text \<open>
  What the two calls do when the read fits: for every Read of at most \<open>MAX_READ_LENGTH\<close>
  bases reached by \<open>init\<close>, \<open>clip\<close> and \<open>becomeRC\<close>, two calls of \<open>becomeRC\<close> give back the
  pointers, the visible and the unclipped bytes, the lengths, the direction and the
  original clipping fields.
\<close>

lemma becomeRC_twice_within_capacity:
  assumes "initialized t mem r"
  shows "readView t (becomeRC t (becomeRC t (mem, r))) = readView t (mem, r)"
  using initialized_layoutOK [OF assms] by (rule becomeRC_twice_view)

definition noLowerCase :: "platform \<Rightarrow> (nat \<Rightarrow> char) \<Rightarrow> nat \<Rightarrow> nat \<Rightarrow> bool" where
  "noLowerCase t mem addr n = list_all (\<lambda>i. IS_LOWER_CASE t (mem (addr + i)) = 0) [0..<n]"

definition resetByInit :: "InitArguments \<Rightarrow> Read \<Rightarrow> bool" where
  "resetByInit a r' \<longleftrightarrow>
     clippingState r' = NoClipping \<and> currentReadDirection r' = FORWARD \<and>
     frontClippedLength r' = 0 \<and> dataLength r' = i_dataLength a \<and>
     unclippedLength r' = i_dataLength a \<and> rcData r' = NULL \<and> rcQuality r' = NULL \<and>
     externalData r' = i_data a \<and> externalQuality r' = i_quality a \<and>
     quality r' = i_quality a \<and> unclippedQuality r' = i_quality a"

text \<open>
  What \<open>init\<close> does when the copy fits, whatever the Read held before: the clipping state
  is \<open>NoClipping\<close>, the direction \<open>FORWARD\<close>, \<open>frontClippedLength\<close> 0, both lengths the length
  given, and there is no reverse-complement cache. Without a lower-case byte \<open>data\<close> is the
  caller's pointer and \<open>localBuffer\<close> is untouched; with one, and at most
  \<open>localBufferLength\<close> bases, \<open>data\<close> is \<open>localBuffer\<close>, holding the \<open>TO_UPPER_CASE\<close> image of
  the span. The caller's memory comes back as it went in.
\<close>

lemma init_within_capacity:
  assumes "i_data a = Ext addr"
    and "noLowerCase t mem addr (unat (i_dataLength a)) \<or> unat (i_dataLength a) \<le> localBufferLength"
  shows "\<exists>r'. init t a (mem, r) = (mem, r') \<and> resetByInit a r' \<and>
     (if noLowerCase t mem addr (unat (i_dataLength a))
      then upcaseForwardRead r' = NULL \<and> localBufferAllocationOffset r' = 0 \<and>
           data r' = i_data a \<and> unclippedData r' = i_data a \<and>
           localBuffer r' = localBuffer r
      else upcaseForwardRead r' = Loc 0 \<and> localBufferAllocationOffset r' = i_dataLength a \<and>
           data r' = Loc 0 \<and> unclippedData r' = Loc 0 \<and>
           spanBytes t (mem, r') (data r') (unat (i_dataLength a)) =
             map (TO_UPPER_CASE t) (spanBytes t (mem, r) (i_data a) (unat (i_dataLength a))))"
proof (cases "noLowerCase t mem addr (unat (i_dataLength a))")
  case True
  with init_no_lower [OF assms(1), of t mem r] assms(1) show ?thesis
    by (auto simp: noLowerCase_def resetByInit_def)
next
  case False
  with assms(2) have fits: "unat (i_dataLength a) \<le> localBufferLength"
    by simp
  from init_lower [OF assms(1) False [unfolded noLowerCase_def] fits, of r] obtain r'
    where r': "init t a (mem, r) = (mem, r')" "resetByInit a r'"
      "upcaseForwardRead r' = Loc 0" "localBufferAllocationOffset r' = i_dataLength a"
      "data r' = Loc 0" "unclippedData r' = Loc 0"
      "localBuffer r' = (\<lambda>j. if j < unat (i_dataLength a) then TO_UPPER_CASE t (mem (addr + j))
                              else localBuffer r j)"
    using assms(1) by (auto simp: resetByInit_def)
  have "spanBytes t (mem, r') (data r') (unat (i_dataLength a)) =
      map (TO_UPPER_CASE t) (spanBytes t (mem, r) (i_data a) (unat (i_dataLength a)))"
    using fits by (simp add: spanBytes_def r' assms(1))
  with r' False show ?thesis by auto
qed


section \<open>Byte buffers and line scans\<close>

lemma byteAt_append_right [simp]: "byteAt (xs @ ys) (length xs + i) = byteAt ys i"
  by (simp add: byteAt_def nth_append)

lemma byteAt_append_right0: "byteAt (xs @ ys) (length xs) = byteAt ys 0"
  using byteAt_append_right [of xs ys 0] by simp

lemma byteAt_append_left: "i < length xs \<Longrightarrow> byteAt (xs @ ys) i = xs ! i"
  by (simp add: byteAt_def nth_append)

lemma byteAt_Cons_0 [simp]: "byteAt (x # xs) 0 = x"
  by (simp add: byteAt_def)

lemma byteAt_Cons_Suc [simp]: "byteAt (x # xs) (Suc i) = byteAt xs i"
  by (simp add: byteAt_def)

lemma byteAt_Nil [simp]: "byteAt [] i = NUL"
  by (simp add: byteAt_def)

lemma byteAt_past_end: "length xs \<le> i \<Longrightarrow> byteAt xs i = NUL"
  by (simp add: byteAt_def)

text \<open>strnchr over a suffix: positions shift by the length of the prefix.\<close>

lemma strnchr_shift:
  "strnchr (pre @ xs) (length pre + p) ch k = map_option (\<lambda>q. length pre + q) (strnchr xs p ch k)"
proof (induction k arbitrary: p)
  case 0
  show ?case by simp
next
  case (Suc k)
  have "strnchr (pre @ xs) (Suc (length pre + p)) ch k
      = map_option (\<lambda>q. length pre + q) (strnchr xs (Suc p) ch k)"
    using Suc [of "Suc p"] by simp
  then show ?case by simp
qed

lemma strnchr_line:
  assumes "ch \<notin> set l"
  shows "strnchr (l @ ch # rest) 0 ch k = (if length l < k then Some (length l) else None)"
  using assms
proof (induction l arbitrary: k)
  case Nil
  show ?case by (cases k) simp_all
next
  case (Cons x l)
  show ?case
  proof (cases k)
    case 0
    then show ?thesis by simp
  next
    case (Suc k')
    have "strnchr (x # l @ ch # rest) (Suc 0) ch k'
        = map_option (\<lambda>q. length [x] + q) (strnchr (l @ ch # rest) 0 ch k')"
      using strnchr_shift [of "[x]" "l @ ch # rest" 0 ch k'] by simp
    with Cons Suc show ?thesis by auto
  qed
qed

lemma strnchr_absent:
  assumes "ch \<notin> set l" "ch \<noteq> NUL"
  shows "strnchr l p ch k = None"
proof (induction k arbitrary: p)
  case 0
  show ?case by simp
next
  case (Suc k)
  have "byteAt l p \<noteq> ch"
    using assms by (auto simp: byteAt_def)
  with Suc show ?case by simp
qed

lemma strnchr_at_line:
  assumes "ch \<notin> set l"
  shows "strnchr (pre @ l @ ch # rest) (length pre) ch k
       = (if length l < k then Some (length pre + length l) else None)"
  using strnchr_shift [of pre "l @ ch # rest" 0 ch k] strnchr_line [OF assms, of rest k]
  by simp

lemma strnchr_at_tail:
  assumes "ch \<notin> set l" "ch \<noteq> NUL"
  shows "strnchr (pre @ l) (length pre) ch k = None"
  using strnchr_shift [of pre l 0 ch k] strnchr_absent [OF assms, of 0 k]
  by simp

lemma skipBases_stop: "\<not> skippedAsBase (byteAt mem p) \<Longrightarrow> skipBases mem p = p"
  by (subst skipBases.simps) simp

lemma skipBases_run:
  assumes "list_all skippedAsBase bs" "\<not> skippedAsBase (byteAt rest 0)"
  shows "skipBases (pre @ bs @ rest) (length pre) = length pre + length bs"
  using assms
proof (induction bs arbitrary: pre)
  case Nil
  then show ?case
    using byteAt_append_right [of pre rest 0] by (simp add: skipBases_stop)
next
  case (Cons b bs)
  have "skipBases ((pre @ [b]) @ bs @ rest) (length (pre @ [b])) = length (pre @ [b]) + length bs"
    using Cons by (intro Cons.IH) simp_all
  moreover have "byteAt (pre @ b # bs @ rest) (length pre) = b"
    using byteAt_append_right [of pre "b # bs @ rest" 0] by simp
  ultimately show ?case
    using Cons.prems by (subst skipBases.simps) simp
qed

section \<open>Boundary recovery\<close>

subsection \<open>One turn of the loop on a line of the buffer\<close>

text \<open>The test of skipPartialRecord on what follows the candidate line, on the bytes \<open>rest\<close>
  behind its line feed.\<close>

definition acceptsAfter :: "char list \<Rightarrow> bool" where
  "acceptsAfter rest \<longleftrightarrow>
     (let bases = skipBases rest 0;
          third = (if byteAt rest bases = CR then bases + 1 else bases)
      in byteAt rest third = NL \<and> byteAt rest (third + 1) = CHR ''+'')"

lemma skipBases_shift: "skipBases (pre @ rest) (length pre + p) = length pre + skipBases rest p"
proof (induction rest p rule: skipBases.induct)
  case (1 mem p)
  show ?case
  proof (cases "skippedAsBase (byteAt mem p)")
    case True
    then have "skipBases (pre @ mem) (length pre + (p + 1)) = length pre + skipBases mem (p + 1)"
      by (rule 1)
    with True show ?thesis
      by (subst skipBases.simps, subst (2) skipBases.simps) (simp add: add.assoc)
  next
    case False
    then show ?thesis
      by (subst skipBases.simps, subst (2) skipBases.simps) simp
  qed
qed

lemma skipLoop_line:
  assumes nl: "NL \<notin> set l"
    and mem: "mem = pre @ l @ NL # rest"
    and b: "buffer \<le> length pre" "buffer + validBytes = length mem"
  shows "skipLoop mem buffer validBytes (length pre) =
     (if byteAt l 0 = CHR ''@'' \<and> acceptsAfter rest then Some (length pre)
      else skipLoop mem buffer validBytes (length pre + length l + 1))"
proof -
  have inside: "\<not> validBytes \<le> length pre - buffer"
    using b by (simp add: mem)
  have "length l < validBytes - (length pre - buffer)"
    using b by (simp add: mem)
  moreover have "strnchr mem (length pre) NL (validBytes - (length pre - buffer))
      = (if length l < validBytes - (length pre - buffer) then Some (length pre + length l) else None)"
    unfolding mem by (rule strnchr_at_line [OF nl])
  ultimately have find: "strnchr mem (length pre) NL (validBytes - (length pre - buffer))
      = Some (length pre + length l)"
    by simp
  have first: "byteAt mem (length pre) = CHR ''@'' \<longleftrightarrow> byteAt l 0 = CHR ''@''"
  proof (cases l)
    case Nil
    then show ?thesis using byteAt_append_right [of pre "NL # rest" 0] by (simp add: mem)
  next
    case (Cons x xs)
    then show ?thesis using byteAt_append_right [of pre "x # xs @ NL # rest" 0] by (simp add: mem)
  qed
  define P where "P = length pre + length l + 1"
  have sb: "skipBases mem P = P + skipBases rest 0"
    using skipBases_shift [of "pre @ l @ [NL]" rest 0] by (simp add: mem P_def)
  have at: "byteAt mem (P + i) = byteAt rest i" for i
    using byteAt_append_right [of "pre @ l @ [NL]" rest i] by (simp add: mem P_def)
  have acc: "acceptsAfter rest \<longleftrightarrow>
     (let bases = skipBases mem P;
          third = (if byteAt mem bases = CR then bases + 1 else bases)
      in byteAt mem third = NL \<and> byteAt mem (third + 1) = CHR ''+'')"
    unfolding acceptsAfter_def Let_def sb at
    using at [of "skipBases rest 0"] at [of "skipBases rest 0 + 1"]
      at [of "skipBases rest 0 + 1 + 1"]
    by (simp add: add.assoc)
  have find': "strnchr mem (length pre) NL (validBytes - (length pre - buffer)) = Some (P - 1)"
    using find by (simp add: P_def)
  have P1: "Suc (P - Suc 0) = P"
    by (simp add: P_def)
  have step: "skipLoop mem buffer validBytes (length pre) =
     (if byteAt mem (length pre) \<noteq> CHR ''@'' then skipLoop mem buffer validBytes P
      else if (let bases = skipBases mem P;
                   third = (if byteAt mem bases = CR then bases + 1 else bases)
               in byteAt mem third = NL \<and> byteAt mem (third + 1) = CHR ''+'')
      then Some (length pre)
      else skipLoop mem buffer validBytes P)"
    by (subst skipLoop.simps) (simp add: inside find' Let_def P1)
  show ?thesis
    unfolding step acc [symmetric] first
    by (simp add: P_def)
qed

lemma skipLoop_tail:
  assumes nl: "NL \<notin> set l"
    and mem: "mem = pre @ l"
    and b: "buffer \<le> length pre"
  shows "skipLoop mem buffer validBytes (length pre) = None"
proof -
  have "strnchr mem (length pre) NL k = None" for k
    using strnchr_at_tail [OF nl, of pre k] by (simp add: mem)
  then show ?thesis
    by (subst skipLoop.simps) simp
qed

definition lineEndThenPlus :: "char list \<Rightarrow> bool" where
  "lineEndThenPlus r \<longleftrightarrow>
     (let third = (if byteAt r 0 = CR then 1 else 0 :: nat)
      in byteAt r third = NL \<and> byteAt r (third + 1) = CHR ''+'')"

lemma not_skippedAsBase [simp]:
  "\<not> skippedAsBase NL" "\<not> skippedAsBase CR" "\<not> skippedAsBase NUL"
  "\<not> skippedAsBase (CHR ''@'')" "\<not> skippedAsBase (CHR ''+'')"
  by (simp_all add: skippedAsBase_def)

lemma acceptsAfter_bases:
  assumes "list_all skippedAsBase bs" "\<not> skippedAsBase (byteAt r 0)"
  shows "acceptsAfter (bs @ r) = lineEndThenPlus r"
proof -
  have sb: "skipBases (bs @ r) 0 = length bs"
    using skipBases_run [OF assms, of "[]"] by simp
  have at: "byteAt (bs @ r) (length bs + i) = byteAt r i" for i
    by simp
  show ?thesis
    unfolding acceptsAfter_def lineEndThenPlus_def Let_def sb
    using at [of 0] at [of "Suc 0"] at [of "Suc (Suc 0)"]
    by (simp add: add.assoc)
qed

lemma acceptsAfter_takeWhile:
  "acceptsAfter rest = lineEndThenPlus (dropWhile skippedAsBase rest)"
proof -
  have "\<not> skippedAsBase (byteAt (dropWhile skippedAsBase rest) 0)"
  proof (cases "dropWhile skippedAsBase rest")
    case Nil
    show ?thesis unfolding Nil by simp
  next
    case (Cons x xs)
    then have "\<not> skippedAsBase x"
      using hd_dropWhile [of skippedAsBase rest] by auto
    with Cons show ?thesis by simp
  qed
  moreover have "list_all skippedAsBase (takeWhile skippedAsBase rest)"
    by (auto simp: list_all_iff dest: set_takeWhileD)
  ultimately have "acceptsAfter (takeWhile skippedAsBase rest @ dropWhile skippedAsBase rest)
      = lineEndThenPlus (dropWhile skippedAsBase rest)"
    by (rule acceptsAfter_bases [rotated])
  then show ?thesis by simp
qed

lemma byteAt_0_eq:
  assumes "c \<noteq> NUL"
  shows "byteAt xs 0 = c \<longleftrightarrow> (\<exists>ys. xs = c # ys)"
  using assms by (cases xs) auto

lemma lineEndThenPlus_shapes:
  "lineEndThenPlus r \<longleftrightarrow>
     (\<exists>more. r = NL # CHR ''+'' # more \<or> r = CR # NL # CHR ''+'' # more)"
proof
  assume a: "lineEndThenPlus r"
  show "\<exists>more. r = NL # CHR ''+'' # more \<or> r = CR # NL # CHR ''+'' # more"
  proof (cases "byteAt r 0 = CR")
    case True
    then obtain xs where r: "r = CR # xs"
      by (auto simp: byteAt_0_eq)
    with a have "byteAt xs 0 = NL" "byteAt xs (Suc 0) = CHR ''+''"
      by (simp_all add: lineEndThenPlus_def)
    then obtain ys where xs: "xs = NL # ys" and "byteAt ys 0 = CHR ''+''"
      by (auto simp: byteAt_0_eq)
    then obtain more where "ys = CHR ''+'' # more"
      by (auto simp: byteAt_0_eq)
    with r xs show ?thesis by simp
  next
    case False
    with a have "byteAt r 0 = NL" "byteAt r (Suc 0) = CHR ''+''"
      by (simp_all add: lineEndThenPlus_def)
    then obtain xs where r: "r = NL # xs" and "byteAt xs 0 = CHR ''+''"
      by (auto simp: byteAt_0_eq)
    then obtain more where "xs = CHR ''+'' # more"
      by (auto simp: byteAt_0_eq)
    with r show ?thesis by simp
  qed
next
  assume "\<exists>more. r = NL # CHR ''+'' # more \<or> r = CR # NL # CHR ''+'' # more"
  then show "lineEndThenPlus r"
    by (auto simp: lineEndThenPlus_def)
qed

lemma acceptsAfter_iff:
  "acceptsAfter rest \<longleftrightarrow>
     (\<exists>bs more. list_all skippedAsBase bs \<and>
        (rest = bs @ NL # CHR ''+'' # more \<or> rest = bs @ CR # NL # CHR ''+'' # more))"
proof
  assume "acceptsAfter rest"
  then obtain more where
    d: "dropWhile skippedAsBase rest = NL # CHR ''+'' # more \<or>
        dropWhile skippedAsBase rest = CR # NL # CHR ''+'' # more"
    by (auto simp: acceptsAfter_takeWhile lineEndThenPlus_shapes)
  define bs where "bs = takeWhile skippedAsBase rest"
  have r: "rest = bs @ dropWhile skippedAsBase rest"
    by (simp add: bs_def)
  have "list_all skippedAsBase bs"
    by (auto simp: bs_def list_all_iff dest: set_takeWhileD)
  moreover have "rest = bs @ NL # CHR ''+'' # more \<or> rest = bs @ CR # NL # CHR ''+'' # more"
    using d r by metis
  ultimately show "\<exists>bs more. list_all skippedAsBase bs \<and>
        (rest = bs @ NL # CHR ''+'' # more \<or> rest = bs @ CR # NL # CHR ''+'' # more)"
    by blast
next
  assume "\<exists>bs more. list_all skippedAsBase bs \<and>
        (rest = bs @ NL # CHR ''+'' # more \<or> rest = bs @ CR # NL # CHR ''+'' # more)"
  then obtain bs more where bs: "list_all skippedAsBase bs"
    and r: "rest = bs @ NL # CHR ''+'' # more \<or> rest = bs @ CR # NL # CHR ''+'' # more"
    by blast
  from r show "acceptsAfter rest"
  proof
    assume "rest = bs @ NL # CHR ''+'' # more"
    then show ?thesis
      using acceptsAfter_bases [OF bs, of "NL # CHR ''+'' # more"]
      by (simp add: lineEndThenPlus_def)
  next
    assume "rest = bs @ CR # NL # CHR ''+'' # more"
    then show ?thesis
      using acceptsAfter_bases [OF bs, of "CR # NL # CHR ''+'' # more"]
      by (simp add: lineEndThenPlus_def)
  qed
qed

lemma acceptsAfter_no_newline:
  assumes "NL \<notin> set rest"
  shows "\<not> acceptsAfter rest"
  using assms by (auto simp: acceptsAfter_iff)

lemma acceptsAfter_start:
  assumes "rest = [] \<or> (\<not> skippedAsBase (hd rest) \<and> hd rest \<noteq> CR \<and> hd rest \<noteq> NL)"
  shows "\<not> acceptsAfter rest"
proof
  assume "acceptsAfter rest"
  then obtain bs more where bs: "list_all skippedAsBase bs"
    and r: "rest = bs @ NL # CHR ''+'' # more \<or> rest = bs @ CR # NL # CHR ''+'' # more"
    by (auto simp: acceptsAfter_iff)
  show False
  proof (cases bs)
    case Nil
    with r assms show False by auto
  next
    case (Cons b bs')
    with r have "hd rest = b" by auto
    with bs Cons assms r show False by auto
  qed
qed

lemma strnchr_found: "strnchr mem p ch k = Some q \<Longrightarrow> byteAt mem q = ch"
proof (induction k arbitrary: p)
  case 0
  then show ?case by simp
next
  case (Suc k)
  show ?case
  proof (cases "byteAt mem p = ch")
    case True
    with Suc.prems show ?thesis by simp
  next
    case False
    with Suc.prems have "strnchr mem (Suc p) ch k = Some q" by simp
    then show ?thesis by (rule Suc.IH)
  qed
qed

lemma byteAt_in_buffer: "byteAt mem q \<noteq> NUL \<Longrightarrow> q < length mem"
  by (auto simp: byteAt_def split: if_splits)

lemma skipLoop_step:
  assumes inside: "first - buffer < validBytes"
    and find: "strnchr mem first NL (validBytes - (first - buffer)) = Some newLine"
  shows "skipLoop mem buffer validBytes first =
     (if byteAt mem first = CHR ''@'' \<and> acceptsAfter (drop (newLine + 1) mem) then Some first
      else skipLoop mem buffer validBytes (newLine + 1))"
proof -
  define P where "P = newLine + 1"
  have "byteAt mem newLine = NL"
    using find by (rule strnchr_found)
  then have "newLine < length mem"
    by (intro byteAt_in_buffer) simp
  then have len: "length (take P mem) = P"
    by (simp add: P_def)
  have mem: "mem = take P mem @ drop P mem"
    by simp
  have sb: "skipBases mem P = P + skipBases (drop P mem) 0"
    using skipBases_shift [of "take P mem" "drop P mem" 0] len by simp
  have at: "byteAt mem (P + i) = byteAt (drop P mem) i" for i
    using byteAt_append_right [of "take P mem" "drop P mem" i] len by simp
  have acc: "acceptsAfter (drop P mem) \<longleftrightarrow>
     (let bases = skipBases mem P;
          third = (if byteAt mem bases = CR then bases + 1 else bases)
      in byteAt mem third = NL \<and> byteAt mem (third + 1) = CHR ''+'')"
    unfolding acceptsAfter_def Let_def sb at
    using at [of "skipBases (drop P mem) 0"] at [of "skipBases (drop P mem) 0 + 1"]
      at [of "skipBases (drop P mem) 0 + 1 + 1"]
    by (simp add: add.assoc)
  have step: "skipLoop mem buffer validBytes first =
     (if byteAt mem first \<noteq> CHR ''@'' then skipLoop mem buffer validBytes P
      else if (let bases = skipBases mem P;
                   third = (if byteAt mem bases = CR then bases + 1 else bases)
               in byteAt mem third = NL \<and> byteAt mem (third + 1) = CHR ''+'')
      then Some first
      else skipLoop mem buffer validBytes P)"
    using inside by (subst skipLoop.simps) (simp add: find Let_def P_def)
  show ?thesis
    unfolding step acc [symmetric]
    by (simp add: P_def)
qed

text \<open>The base symbols of the record grammar: A, C, G, T, N and the ambiguity codes the
  reader's own table lists, in either case.\<close>

definition supportedBaseSymbol :: "char \<Rightarrow> bool" where
  "supportedBaseSymbol c \<longleftrightarrow>
     c \<in> set ''ACGTNURYKMSWBDHVX'' \<or> c \<in> set ''acgtnurykmswbdhvx''"

lemma skippedAsBase_supported: "skippedAsBase c \<Longrightarrow> supportedBaseSymbol c"
  unfolding skippedAsBase_def supportedBaseSymbol_def
  by (elim disjE) simp_all

lemma not_supportedBaseSymbol [simp]:
  "\<not> supportedBaseSymbol NL" "\<not> supportedBaseSymbol CR"
  by (simp_all add: supportedBaseSymbol_def)

text \<open>The test of the claim on the bytes behind the candidate's line: a run of supported
  base symbols, a line feed or a carriage return and a line feed, then \<open>'+'\<close>.\<close>

definition baseLineThenPlus :: "char list \<Rightarrow> bool" where
  "baseLineThenPlus rest \<longleftrightarrow> lineEndThenPlus (dropWhile supportedBaseSymbol rest)"

lemma list_all_supported: "list_all skippedAsBase bs \<Longrightarrow> list_all supportedBaseSymbol bs"
  by (induction bs) (simp_all add: skippedAsBase_supported)

lemma dropWhile_run:
  assumes "list_all P bs" "\<not> P y"
  shows "dropWhile P (bs @ y # ys) = y # ys"
  using assms by (induction bs) simp_all

lemma baseLineThenPlus_iff:
  "baseLineThenPlus rest \<longleftrightarrow>
     (\<exists>bs more. list_all supportedBaseSymbol bs \<and>
        (rest = bs @ NL # CHR ''+'' # more \<or> rest = bs @ CR # NL # CHR ''+'' # more))"
proof
  assume "baseLineThenPlus rest"
  then obtain more where
    d: "dropWhile supportedBaseSymbol rest = NL # CHR ''+'' # more \<or>
        dropWhile supportedBaseSymbol rest = CR # NL # CHR ''+'' # more"
    by (auto simp: baseLineThenPlus_def lineEndThenPlus_shapes)
  define bs where "bs = takeWhile supportedBaseSymbol rest"
  have r: "rest = bs @ dropWhile supportedBaseSymbol rest"
    by (simp add: bs_def)
  have "list_all supportedBaseSymbol bs"
    by (auto simp: bs_def list_all_iff dest: set_takeWhileD)
  moreover have "rest = bs @ NL # CHR ''+'' # more \<or> rest = bs @ CR # NL # CHR ''+'' # more"
    using d r by metis
  ultimately show "\<exists>bs more. list_all supportedBaseSymbol bs \<and>
        (rest = bs @ NL # CHR ''+'' # more \<or> rest = bs @ CR # NL # CHR ''+'' # more)"
    by blast
next
  assume "\<exists>bs more. list_all supportedBaseSymbol bs \<and>
        (rest = bs @ NL # CHR ''+'' # more \<or> rest = bs @ CR # NL # CHR ''+'' # more)"
  then obtain bs more where bs: "list_all supportedBaseSymbol bs"
    and r: "rest = bs @ NL # CHR ''+'' # more \<or> rest = bs @ CR # NL # CHR ''+'' # more"
    by blast
  from r show "baseLineThenPlus rest"
  proof
    assume "rest = bs @ NL # CHR ''+'' # more"
    then show ?thesis
      using dropWhile_run [OF bs, of NL "CHR ''+'' # more"]
      by (simp add: baseLineThenPlus_def lineEndThenPlus_def)
  next
    assume "rest = bs @ CR # NL # CHR ''+'' # more"
    then show ?thesis
      using dropWhile_run [OF bs, of CR "NL # CHR ''+'' # more"]
      by (simp add: baseLineThenPlus_def lineEndThenPlus_def)
  qed
qed

lemma acceptsAfter_baseLineThenPlus: "acceptsAfter rest \<Longrightarrow> baseLineThenPlus rest"
  unfolding acceptsAfter_iff baseLineThenPlus_iff
  using list_all_supported by blast

lemma skipLoop_accepted:
  assumes "skipLoop mem buffer validBytes first = Some f"
  shows "byteAt mem f = CHR ''@'' \<and>
     (\<exists>newLine. strnchr mem f NL (validBytes - (f - buffer)) = Some newLine \<and>
        baseLineThenPlus (drop (newLine + 1) mem))"
  using assms
proof (induction "buffer + validBytes + 1 - first" arbitrary: first rule: less_induct)
  case less
  have inside: "first - buffer < validBytes"
    using less.prems by (subst (asm) skipLoop.simps) (auto split: if_splits)
  then obtain newLine where
    find: "strnchr mem first NL (validBytes - (first - buffer)) = Some newLine"
    using less.prems by (subst (asm) skipLoop.simps) (auto split: if_splits option.splits)
  note step = skipLoop_step [OF inside find]
  show ?case
  proof (cases "byteAt mem first = CHR ''@'' \<and> acceptsAfter (drop (newLine + 1) mem)")
    case True
    have "skipLoop mem buffer validBytes first = Some first"
      using True by (subst step) simp
    with less.prems have "f = first" by simp
    with True find show ?thesis
      by (auto intro: acceptsAfter_baseLineThenPlus)
  next
    case False
    have "skipLoop mem buffer validBytes first = skipLoop mem buffer validBytes (newLine + 1)"
      using False by (subst step) auto
    with less.prems have nxt: "skipLoop mem buffer validBytes (newLine + 1) = Some f"
      by simp
    have "buffer + validBytes + 1 - (newLine + 1) < buffer + validBytes + 1 - first"
      using strnchr_bounds [OF find] inside by auto
    from less.hyps [OF this nxt] show ?thesis .
  qed
qed

subsection \<open>C3: the test on the candidate's base line\<close>

text \<open>
  Claim C3. The loop of \<open>skipPartialRecord\<close> leaves with a candidate \<open>f\<close> only if \<open>f\<close> holds
  \<open>'@'\<close> and the line behind the candidate's line feed is a run of supported base symbols
  (A, C, G, T, N and the ambiguity codes, in either case) ended by a line feed, or by a
  carriage return and a line feed, and followed by \<open>'+'\<close>. A candidate whose line has a line
  feed inside the buffer and that fails this test is never accepted: the loop goes on
  from the first byte of the next line. (The loop itself steps over the nine bytes
  \<open>A C T G N a c t g\<close> only, so it accepts fewer lines than the test allows.)
\<close>

theorem skip_accepts_only_base_lines:
  "(skipLoop mem buffer validBytes first = Some f \<longrightarrow>
      byteAt mem f = CHR ''@'' \<and>
      (\<exists>newLine. strnchr mem f NL (validBytes - (f - buffer)) = Some newLine \<and>
         baseLineThenPlus (drop (newLine + 1) mem))) \<and>
   (first - buffer < validBytes \<and>
    strnchr mem first NL (validBytes - (first - buffer)) = Some newLine \<and>
    \<not> (byteAt mem first = CHR ''@'' \<and> baseLineThenPlus (drop (newLine + 1) mem)) \<longrightarrow>
      skipLoop mem buffer validBytes first = skipLoop mem buffer validBytes (newLine + 1))"
proof (intro conjI impI)
  assume "skipLoop mem buffer validBytes first = Some f"
  from skipLoop_accepted [OF this]
  show "byteAt mem f = CHR ''@''"
    and "\<exists>newLine. strnchr mem f NL (validBytes - (f - buffer)) = Some newLine \<and>
         baseLineThenPlus (drop (newLine + 1) mem)"
    by simp_all
next
  assume a: "first - buffer < validBytes \<and>
    strnchr mem first NL (validBytes - (first - buffer)) = Some newLine \<and>
    \<not> (byteAt mem first = CHR ''@'' \<and> baseLineThenPlus (drop (newLine + 1) mem))"
  then have "\<not> (byteAt mem first = CHR ''@'' \<and> acceptsAfter (drop (newLine + 1) mem))"
    using acceptsAfter_baseLineThenPlus by blast
  with a show "skipLoop mem buffer validBytes first = skipLoop mem buffer validBytes (newLine + 1)"
    by (subst skipLoop_step [of first buffer validBytes mem newLine]) auto
qed

text \<open>A buffer whose first line starts with \<open>'@'\<close> and is followed by a header, not by bases.\<close>

definition headerLike :: "char list" where
  "headerLike = ''@x'' @ [NL] @ ''@r2'' @ [NL] @ ''ACGT'' @ [NL] @ ''+'' @ [NL] @ ''IIII'' @ [NL]"

theorem skip_accepts_only_base_lines_witness:
  "skipLoop headerLike 0 (length headerLike) 0 = Some 3 \<and>
   byteAt headerLike 3 = CHR ''@'' \<and>
   (\<exists>newLine. strnchr headerLike 3 NL (length headerLike - (3 - 0)) = Some newLine \<and>
         baseLineThenPlus (drop (newLine + 1) headerLike)) \<and>
   \<not> baseLineThenPlus (drop (2 + 1) headerLike) \<and>
   skipLoop headerLike 0 (length headerLike) 0 = skipLoop headerLike 0 (length headerLike) (2 + 1)"
proof -
  have 1: "skipLoop headerLike 0 (length headerLike) 0 = Some 3" by code_simp
  have 2: "0 - 0 < length headerLike" by code_simp
  have 3: "strnchr headerLike 0 NL (length headerLike - (0 - 0)) = Some 2" by code_simp
  have 4: "\<not> baseLineThenPlus (drop (2 + 1) headerLike)" by code_simp
  from skip_accepts_only_base_lines [of headerLike 0 "length headerLike" 0 3 2] 1 2 3 4
  show ?thesis by simp
qed

subsection \<open>Records as lines\<close>

text \<open>
  A record as four lines, each ended by a line feed, with or without a carriage return
  before it. \<open>wellFormedRecord\<close> asks of the base line what the loop of
  \<open>skipPartialRecord\<close> steps over, and of the quality line what the record grammar asks.
\<close>

record fastqRecord =
  header :: string
  bases :: string
  marker :: string
  qualities :: string
  crlf :: bool

definition eol :: "fastqRecord \<Rightarrow> char list" where
  "eol r = (if crlf r then [CR] else [])"

definition line1 :: "fastqRecord \<Rightarrow> char list" where
  "line1 r = CHR ''@'' # header r @ eol r"

definition line2 :: "fastqRecord \<Rightarrow> char list" where
  "line2 r = bases r @ eol r"

definition line3 :: "fastqRecord \<Rightarrow> char list" where
  "line3 r = CHR ''+'' # marker r @ eol r"

definition line4 :: "fastqRecord \<Rightarrow> char list" where
  "line4 r = qualities r @ eol r"

definition unlinesNL :: "char list list \<Rightarrow> char list" where
  "unlinesNL ls = concat (map (\<lambda>l. l @ [NL]) ls)"

definition render :: "fastqRecord \<Rightarrow> char list" where
  "render r = unlinesNL [line1 r, line2 r, line3 r, line4 r]"

definition throughPlus :: "fastqRecord \<Rightarrow> char list" where
  "throughPlus r = line1 r @ NL # line2 r @ NL # [CHR ''+'']"

definition printable :: "char \<Rightarrow> bool" where
  "printable c \<longleftrightarrow> 33 \<le> (of_char c :: nat) \<and> (of_char c :: nat) \<le> 126"

definition wellFormedRecord :: "fastqRecord \<Rightarrow> bool" where
  "wellFormedRecord r \<longleftrightarrow>
     NL \<notin> set (header r) \<and> NL \<notin> set (marker r) \<and>
     bases r \<noteq> [] \<and> list_all skippedAsBase (bases r) \<and>
     length (qualities r) = length (bases r) \<and> list_all printable (qualities r)"

lemma unlinesNL_simps [simp]:
  "unlinesNL [] = []"
  "unlinesNL (l # ls) = l @ NL # unlinesNL ls"
  "unlinesNL (xs @ ys) = unlinesNL xs @ unlinesNL ys"
  by (simp_all add: unlinesNL_def)

lemma printable_not_NL: "printable c \<Longrightarrow> c \<noteq> NL"
  by (auto simp: printable_def)

lemma skippedAsBase_not_NL: "skippedAsBase c \<Longrightarrow> c \<noteq> NL"
  by (auto simp: skippedAsBase_def)

lemma wf_lines:
  assumes "wellFormedRecord r"
  shows "NL \<notin> set (line1 r)" "NL \<notin> set (line2 r)" "NL \<notin> set (line3 r)" "NL \<notin> set (line4 r)"
proof -
  have e: "NL \<notin> set (eol r)" by (simp add: eol_def)
  have q: "NL \<notin> set (qualities r)"
    using assms printable_not_NL by (auto simp: wellFormedRecord_def list_all_iff)
  have b: "NL \<notin> set (bases r)"
    using assms skippedAsBase_not_NL by (auto simp: wellFormedRecord_def list_all_iff)
  show "NL \<notin> set (line1 r)" "NL \<notin> set (line2 r)" "NL \<notin> set (line3 r)" "NL \<notin> set (line4 r)"
    using assms e q b by (simp_all add: line1_def line2_def line3_def line4_def wellFormedRecord_def)
qed

text \<open>Dropping bytes from a sequence of lines leaves the tail of one line and the lines
  behind it.\<close>

lemma drop_unlinesNL:
  assumes "k < length (unlinesNL ls)"
  shows "\<exists>i k'. i < length ls \<and> k' \<le> length (ls ! i) \<and>
           k = length (unlinesNL (take i ls)) + k' \<and>
           drop k (unlinesNL ls) = drop k' (ls ! i) @ NL # unlinesNL (drop (Suc i) ls)"
  using assms
proof (induction ls arbitrary: k)
  case Nil
  then show ?case by simp
next
  case (Cons l ls)
  show ?case
  proof (cases "k \<le> length l")
    case True
    then have "drop k (unlinesNL (l # ls)) = drop k l @ NL # unlinesNL ls"
      by simp
    with True show ?thesis
      by (intro exI [of _ 0] exI [of _ k]) simp
  next
    case False
    define k1 where "k1 = k - length l - 1"
    have k: "k = length l + 1 + k1" using False by (simp add: k1_def)
    have "k1 < length (unlinesNL ls)"
      using Cons.prems k by simp
    from Cons.IH [OF this] obtain i k' where
      i: "i < length ls" "k' \<le> length (ls ! i)" "k1 = length (unlinesNL (take i ls)) + k'"
        "drop k1 (unlinesNL ls) = drop k' (ls ! i) @ NL # unlinesNL (drop (Suc i) ls)"
      by blast
    have "drop k (unlinesNL (l # ls)) = drop k1 (unlinesNL ls)"
      by (simp add: k)
    with i k show ?thesis
      by (intro exI [of _ "Suc i"] exI [of _ k']) simp
  qed
qed

text \<open>Lines that the loop steps over, whatever they are followed by.\<close>

fun inertLines :: "char list list \<Rightarrow> char list \<Rightarrow> bool" where
  "inertLines [] follow = True"
| "inertLines (l # ls) follow \<longleftrightarrow>
     NL \<notin> set l \<and> \<not> (byteAt l 0 = CHR ''@'' \<and> acceptsAfter (unlinesNL ls @ follow)) \<and>
     inertLines ls follow"

lemma skipLoop_walk:
  assumes "inertLines ls follow"
    and "mem = pre @ unlinesNL ls @ follow"
    and "buffer \<le> length pre" "buffer + validBytes = length mem"
  shows "skipLoop mem buffer validBytes (length pre)
       = skipLoop mem buffer validBytes (length pre + length (unlinesNL ls))"
  using assms
proof (induction ls arbitrary: pre)
  case Nil
  then show ?case by simp
next
  case (Cons l ls)
  have mem: "mem = pre @ l @ NL # (unlinesNL ls @ follow)"
    using Cons.prems by simp
  have nl: "NL \<notin> set l" and rej: "\<not> (byteAt l 0 = CHR ''@'' \<and> acceptsAfter (unlinesNL ls @ follow))"
    and rest: "inertLines ls follow"
    using Cons.prems by simp_all
  have "skipLoop mem buffer validBytes (length pre)
      = skipLoop mem buffer validBytes (length pre + length l + 1)"
    using skipLoop_line [OF nl mem Cons.prems(3,4)] rej by auto
  also have "\<dots> = skipLoop mem buffer validBytes (length (pre @ l @ [NL]))"
    by simp
  also have "\<dots> = skipLoop mem buffer validBytes (length (pre @ l @ [NL]) + length (unlinesNL ls))"
    using rest Cons.prems by (intro Cons.IH) simp_all
  finally show ?case by (simp add: add.assoc)
qed

lemma first_split_unique:
  assumes "c \<notin> set a" "c \<notin> set b" "a @ c # x = b @ c # y"
  shows "a = b \<and> x = y"
  using assms
proof (induction a arbitrary: b)
  case Nil
  then show ?case by (cases b) auto
next
  case (Cons a1 a)
  then show ?case by (cases b) auto
qed

lemma acceptsAfter_line_plus:
  assumes "NL \<notin> set l" "acceptsAfter (l @ NL # rest)"
  shows "byteAt rest 0 = CHR ''+''"
proof -
  from assms(2) obtain bs more where bs: "list_all skippedAsBase bs"
    and r: "l @ NL # rest = bs @ NL # CHR ''+'' # more \<or> l @ NL # rest = bs @ CR # NL # CHR ''+'' # more"
    by (auto simp: acceptsAfter_iff)
  have nb: "NL \<notin> set bs"
    using bs skippedAsBase_not_NL by (auto simp: list_all_iff)
  from r show ?thesis
  proof
    assume "l @ NL # rest = bs @ NL # CHR ''+'' # more"
    from first_split_unique [OF assms(1) nb this] show ?thesis by simp
  next
    assume "l @ NL # rest = bs @ CR # NL # CHR ''+'' # more"
    then have e: "l @ NL # rest = (bs @ [CR]) @ NL # CHR ''+'' # more" by simp
    have "NL \<notin> set (bs @ [CR])" using nb by simp
    from first_split_unique [OF assms(1) this e] show ?thesis by simp
  qed
qed

lemma byteAt_line1 [simp]: "byteAt (line1 r) 0 = CHR ''@''"
  by (simp add: line1_def)

lemma byteAt_line3 [simp]: "byteAt (line3 r) 0 = CHR ''+''"
  by (simp add: line3_def)

lemma byteAt_append_0: "xs \<noteq> [] \<Longrightarrow> byteAt (xs @ ys) 0 = byteAt xs 0"
  by (cases xs) simp_all

lemma skippedAsBase_not_at: "skippedAsBase c \<Longrightarrow> c \<noteq> CHR ''@''"
  by (auto simp: skippedAsBase_def)

lemma line2_elements:
  assumes "wellFormedRecord r" "c \<in> set (line2 r)"
  shows "c \<noteq> CHR ''@''"
  using assms skippedAsBase_not_at
  by (auto simp: line2_def eol_def wellFormedRecord_def list_all_iff split: if_splits)

lemma byteAt_0_in_set: "byteAt xs 0 \<noteq> NUL \<Longrightarrow> byteAt xs 0 \<in> set xs"
  by (cases xs) simp_all

lemma line2_suffix_no_at:
  assumes "wellFormedRecord r"
  shows "byteAt (drop j (line2 r)) 0 \<noteq> CHR ''@''"
proof
  assume a: "byteAt (drop j (line2 r)) 0 = CHR ''@''"
  then have "CHR ''@'' \<in> set (drop j (line2 r))"
    using byteAt_0_in_set [of "drop j (line2 r)"] by simp
  then have "CHR ''@'' \<in> set (line2 r)"
    by (rule in_set_dropD)
  with line2_elements [OF assms] show False by blast
qed

lemma line2_accepts:
  assumes "wellFormedRecord r"
  shows "acceptsAfter (line2 r @ NL # CHR ''+'' # beyond)"
proof -
  have "list_all skippedAsBase (bases r)"
    using assms by (simp add: wellFormedRecord_def)
  moreover have "\<not> skippedAsBase (byteAt (eol r @ NL # CHR ''+'' # beyond) 0)"
    by (simp add: eol_def)
  ultimately have "acceptsAfter (bases r @ eol r @ NL # CHR ''+'' # beyond)
      = lineEndThenPlus (eol r @ NL # CHR ''+'' # beyond)"
    by (rule acceptsAfter_bases)
  then show ?thesis
    by (simp add: line2_def eol_def lineEndThenPlus_def)
qed

definition quiet :: "char list \<Rightarrow> bool" where
  "quiet follow \<longleftrightarrow> \<not> acceptsAfter follow \<and> byteAt follow 0 \<noteq> CHR ''+''"

lemma quiet_Nil [simp]: "quiet []"
  by (simp add: quiet_def acceptsAfter_no_newline)

lemma quiet_at: "quiet (CHR ''@'' # xs)"
  by (simp add: quiet_def acceptsAfter_start)

lemma quiet_throughPlus: "quiet (throughPlus r @ beyond)"
  using quiet_at by (simp add: throughPlus_def line1_def)

lemma quiet_take_throughPlus: "quiet (take j (throughPlus r))"
proof (cases j)
  case 0
  then show ?thesis by simp
next
  case (Suc j')
  then show ?thesis using quiet_at by (simp add: throughPlus_def line1_def)
qed

lemma inert_after:
  assumes wf: "wellFormedRecord r" and q: "quiet follow" and i: "i < 4"
  shows "inertLines (drop (Suc i) [line1 r, line2 r, line3 r, line4 r]) follow"
proof -
  note nl = wf_lines [OF wf]
  have 4: "inertLines [line4 r] follow"
    using nl q by (simp add: quiet_def)
  have a4: "\<not> acceptsAfter (line4 r @ NL # follow)"
    using acceptsAfter_line_plus [OF nl(4), of follow] q by (auto simp: quiet_def)
  have 3: "inertLines [line3 r, line4 r] follow"
    using nl 4 by simp
  have "byteAt (line2 r) 0 \<noteq> CHR ''@''"
    using line2_suffix_no_at [OF wf, of 0] by simp
  then have 2: "inertLines [line2 r, line3 r, line4 r] follow"
    using nl 3 by simp
  from i consider "i = 0" | "i = 1" | "i = 2" | "i = 3" by linarith
  then show ?thesis
    using 2 3 4 by cases simp_all
qed

lemma inert_partial:
  assumes wf: "wellFormedRecord r" and q: "quiet follow" and i: "i < 4"
    and k': "k' \<le> length ([line1 r, line2 r, line3 r, line4 r] ! i)"
    and noAt: "i = 0 \<longrightarrow> byteAt (drop k' (line1 r)) 0 \<noteq> CHR ''@''"
  shows "inertLines (drop k' ([line1 r, line2 r, line3 r, line4 r] ! i)
           # drop (Suc i) [line1 r, line2 r, line3 r, line4 r]) follow"
proof -
  note nl = wf_lines [OF wf]
  note rest = inert_after [OF wf q i]
  have a4: "\<not> acceptsAfter (line4 r @ NL # follow)"
    using acceptsAfter_line_plus [OF nl(4), of follow] q by (auto simp: quiet_def)
  from i consider "i = 0" | "i = 1" | "i = 2" | "i = 3" by linarith
  then show ?thesis
  proof cases
    case 1
    with rest noAt nl(1) show ?thesis
      by (auto dest: in_set_dropD)
  next
    case 2
    with rest nl(2) line2_suffix_no_at [OF wf, of k'] show ?thesis
      by (auto dest: in_set_dropD)
  next
    case 3
    with rest nl(3) a4 show ?thesis
      by (auto dest: in_set_dropD)
  next
    case 4
    with rest nl(4) q show ?thesis
      by (auto simp: quiet_def dest: in_set_dropD)
  qed
qed

lemma advance_0 [simp]: "advance 0 d = d"
  by (simp add: advance_def)

text \<open>A window that begins with inert lines: the loop reaches the byte behind them.\<close>

lemma skipPartialRecord_walk:
  assumes inert: "inertLines (t # ls) follow"
    and cur: "current d = before @ unlinesNL (t # ls) @ follow"
    and off: "offset d = length before"
  shows "skipPartialRecord d =
     (case skipLoop (current d) (offset d) (length (current d) - offset d)
              (offset d + length (unlinesNL (t # ls))) of
        None \<Rightarrow> Inr (False, d)
      | Some first \<Rightarrow> Inr (True, advance (first - offset d) d))"
proof -
  define mem where "mem = current d"
  define buffer where "buffer = offset d"
  define validBytes where "validBytes = length (current d) - offset d"
  have mem: "mem = before @ unlinesNL (t # ls) @ follow"
    by (simp add: mem_def cur)
  have b: "buffer \<le> length before" "buffer + validBytes = length mem"
    by (simp_all add: buffer_def validBytes_def off mem_def cur)
  have gd: "getData d = (offset d < length (current d), buffer, validBytes)"
    by (simp add: getData_def buffer_def validBytes_def)
  have nl: "NL \<notin> set t"
    using inert by simp
  have walk: "skipLoop mem buffer validBytes (length before)
      = skipLoop mem buffer validBytes (length before + length (unlinesNL (t # ls)))"
    using skipLoop_walk [OF inert mem b] .
  have first0: "byteAt mem buffer = byteAt (t @ NL # unlinesNL ls @ follow) 0"
    using byteAt_append_right [of before "t @ NL # unlinesNL ls @ follow" 0]
    by (simp add: mem buffer_def off)
  show ?thesis
  proof (cases "byteAt mem buffer = CHR ''@''")
    case True
    then show ?thesis
      unfolding skipPartialRecord_def gd mem_def [symmetric]
      using walk by (simp add: buffer_def off validBytes_def mem_def split: option.splits)
  next
    case False
    have "strnchr mem (length before) NL validBytes
        = (if length t < validBytes then Some (length before + length t) else None)"
      unfolding mem unlinesNL_simps append_assoc append_Cons
      by (rule strnchr_at_line [OF nl])
    moreover have "length t < validBytes"
      using b by (simp add: mem)
    ultimately have find: "strnchr mem buffer NL validBytes = Some (length before + length t)"
      by (simp add: buffer_def off)
    have inert': "inertLines ls follow"
      using inert by simp
    have mem': "mem = (before @ t @ [NL]) @ unlinesNL ls @ follow"
      by (simp add: mem)
    have "skipLoop mem buffer validBytes (length (before @ t @ [NL]))
        = skipLoop mem buffer validBytes (length (before @ t @ [NL]) + length (unlinesNL ls))"
      using b by (intro skipLoop_walk [OF inert' mem']) simp_all
    then have walk': "skipLoop mem buffer validBytes (length before + length t + 1)
        = skipLoop mem buffer validBytes (length before + length (unlinesNL (t # ls)))"
      by (simp add: add.assoc)
    show ?thesis
      unfolding skipPartialRecord_def gd mem_def [symmetric]
      using False find walk'
      by (simp add: buffer_def off validBytes_def mem_def split: option.splits)
  qed
qed

lemma skipLoop_at_record:
  assumes wf: "wellFormedRecord r1"
    and mem: "mem = pre @ throughPlus r1 @ beyond"
    and b: "buffer \<le> length pre" "buffer + validBytes = length mem"
  shows "skipLoop mem buffer validBytes (length pre) = Some (length pre)"
proof -
  have m: "mem = pre @ line1 r1 @ NL # (line2 r1 @ NL # CHR ''+'' # beyond)"
    by (simp add: mem throughPlus_def)
  show ?thesis
    using skipLoop_line [OF wf_lines(1) [OF wf] m b] line2_accepts [OF wf, of beyond]
    by simp
qed

lemma take_line_cases:
  assumes "j \<le> length (l @ NL # rest)"
  shows "(j \<le> length l \<and> take j (l @ NL # rest) = take j l) \<or>
         (\<exists>j'. j = length l + 1 + j' \<and> j' \<le> length rest \<and>
            take j (l @ NL # rest) = l @ NL # take j' rest)"
proof (cases "j \<le> length l")
  case True
  then show ?thesis by simp
next
  case False
  then obtain j' where j: "j = length l + 1 + j'"
    by (metis Suc_eq_plus1 add_Suc_right le_Suc_ex not_less_eq_eq)
  with assms have "j' \<le> length rest" by simp
  moreover have "take j (l @ NL # rest) = l @ NL # take j' rest"
    by (simp add: j)
  ultimately show ?thesis using j by blast
qed

lemma skipLoop_at_cut:
  assumes wf: "wellFormedRecord r1"
    and mem: "mem = pre @ take j (throughPlus r1)"
    and j: "j < length (throughPlus r1)"
    and b: "buffer \<le> length pre" "buffer + validBytes = length mem"
  shows "skipLoop mem buffer validBytes (length pre) = None"
proof -
  note nl = wf_lines [OF wf]
  have tp: "throughPlus r1 = line1 r1 @ NL # (line2 r1 @ NL # [CHR ''+''])"
    by (simp add: throughPlus_def)
  from take_line_cases [of j "line1 r1" "line2 r1 @ NL # [CHR ''+'']"] j
  consider (inHeader) "take j (throughPlus r1) = take j (line1 r1)"
    | (later) j' where "j' \<le> length (line2 r1 @ NL # [CHR ''+''])"
        "j = length (line1 r1) + 1 + j'"
        "take j (throughPlus r1) = line1 r1 @ NL # take j' (line2 r1 @ NL # [CHR ''+''])"
    unfolding tp by auto
  then show ?thesis
  proof cases
    case inHeader
    have "NL \<notin> set (take j (line1 r1))"
      using nl(1) by (auto dest: in_set_takeD)
    moreover have "mem = pre @ take j (line1 r1)"
      unfolding mem inHeader by simp
    ultimately show ?thesis
      using b(1) by (rule skipLoop_tail)
  next
    case later
    have j': "j' < length (line2 r1 @ NL # [CHR ''+''])"
      using later(2) j by (simp add: tp)
    from take_line_cases [OF later(1)]
    consider (inBases) "take j' (line2 r1 @ NL # [CHR ''+'']) = take j' (line2 r1)"
      | (afterBases) j'' where "j'' \<le> length [CHR ''+'']" "j' = length (line2 r1) + 1 + j''"
          "take j' (line2 r1 @ NL # [CHR ''+'']) = line2 r1 @ NL # take j'' [CHR ''+'']"
      by auto
    then show ?thesis
    proof cases
      case inBases
      define t2 where "t2 = take j' (line2 r1)"
      have n2: "NL \<notin> set t2"
        using nl(2) by (auto simp: t2_def dest: in_set_takeD)
      have m: "mem = pre @ line1 r1 @ NL # t2"
        unfolding mem later(3) inBases t2_def by simp
      have "skipLoop mem buffer validBytes (length pre)
          = skipLoop mem buffer validBytes (length pre + length (line1 r1) + 1)"
        using skipLoop_line [OF nl(1) m b] acceptsAfter_no_newline [OF n2] by simp
      also have "\<dots> = skipLoop mem buffer validBytes (length (pre @ line1 r1 @ [NL]))"
        by simp
      also have "\<dots> = None"
        using b by (intro skipLoop_tail [OF n2]) (simp_all add: m)
      finally show ?thesis .
    next
      case afterBases
      have "j'' = 0"
        using afterBases(2) j' by simp
      then have m: "mem = pre @ line1 r1 @ NL # (line2 r1 @ NL # [])"
        unfolding mem later(3) afterBases(3) by simp
      have r1: "\<not> acceptsAfter (line2 r1 @ NL # [])"
        using acceptsAfter_line_plus [OF nl(2), of "[]"] by auto
      have "skipLoop mem buffer validBytes (length pre)
          = skipLoop mem buffer validBytes (length pre + length (line1 r1) + 1)"
        using skipLoop_line [OF nl(1) m b] r1 by simp
      also have "\<dots> = skipLoop mem buffer validBytes (length (pre @ line1 r1 @ [NL]))"
        by simp
      also have "\<dots> = skipLoop mem buffer validBytes (length (pre @ line1 r1 @ [NL]) + length (line2 r1) + 1)"
      proof -
        have m2: "mem = (pre @ line1 r1 @ [NL]) @ line2 r1 @ NL # []"
          by (simp add: m)
        have "byteAt (line2 r1) 0 \<noteq> CHR ''@''"
          using line2_suffix_no_at [OF wf, of 0] by simp
        with skipLoop_line [OF nl(2) m2 _ b(2)] b(1) show ?thesis by simp
      qed
      also have "\<dots> = skipLoop mem buffer validBytes (length (pre @ line1 r1 @ [NL] @ line2 r1 @ [NL]))"
        by (simp add: add.assoc)
      also have "\<dots> = None"
        using b by (intro skipLoop_tail [of "[]"]) (simp_all add: m)
      finally show ?thesis .
    qed
  qed
qed

lemma render_lines: "render r = unlinesNL [line1 r, line2 r, line3 r, line4 r]"
  by (simp add: render_def)

lemma header_tail_no_at:
  assumes "0 < k" "k \<le> length (line1 r)"
    and "k \<le> length (header r) \<longrightarrow> header r ! (k - 1) \<noteq> CHR ''@''"
  shows "byteAt (drop k (line1 r)) 0 \<noteq> CHR ''@''"
proof -
  obtain k1 where k1: "k = Suc k1" using assms(1) by (cases k) auto
  have d: "drop (Suc k1) (line1 r) = drop k1 (header r @ eol r)"
    by (simp add: line1_def)
  have "byteAt (drop k1 (header r @ eol r)) 0 \<noteq> CHR ''@''"
  proof (cases "k1 < length (header r)")
    case True
    then have "byteAt (drop k1 (header r @ eol r)) 0 = header r ! k1"
      by (simp add: byteAt_def nth_append)
    with assms(3) True show ?thesis by (simp add: k1)
  next
    case False
    then have e: "drop k1 (header r @ eol r) = drop (k1 - length (header r)) (eol r)"
      by simp
    have "byteAt (drop (k1 - length (header r)) (eol r)) 0 \<noteq> CHR ''@''"
      by (cases "k1 - length (header r)") (simp_all add: eol_def)
    then show ?thesis unfolding e .
  qed
  then show ?thesis unfolding k1 d .
qed

lemma skipPartialRecord_at_start:
  assumes wf: "wellFormedRecord r0"
    and cur: "current d = before @ render r0 @ follow" and off: "offset d = length before"
  shows "skipPartialRecord d = Inr (True, d)"
proof -
  define mem where "mem = current d"
  define validBytes where "validBytes = length (current d) - offset d"
  have m: "mem = before @ line1 r0 @ NL # (line2 r0 @ NL # CHR ''+'' # (marker r0 @ eol r0 @ NL # line4 r0 @ NL # follow))"
    by (simp add: mem_def cur render_lines line3_def)
  have b: "length before \<le> length before" "length before + validBytes = length mem"
    by (simp_all add: validBytes_def off mem_def cur)
  have gd: "getData d = (offset d < length (current d), length before, validBytes)"
    by (simp add: getData_def off validBytes_def)
  have "byteAt mem (length before) = CHR ''@''"
    using byteAt_append_right [of before "line1 r0 @ NL # (line2 r0 @ NL # CHR ''+'' # (marker r0 @ eol r0 @ NL # line4 r0 @ NL # follow))" 0]
    by (simp add: m line1_def)
  moreover have "skipLoop mem (length before) validBytes (length before) = Some (length before)"
    using skipLoop_line [OF wf_lines(1) [OF wf] m b] line2_accepts [OF wf] by simp
  ultimately show ?thesis
    unfolding skipPartialRecord_def gd mem_def [symmetric]
    by simp
qed

lemma skipPartialRecord_inside:
  assumes wf: "wellFormedRecord r0"
    and k: "0 < k" "k < length (render r0)"
    and noAt: "k \<le> length (header r0) \<longrightarrow> header r0 ! (k - 1) \<noteq> CHR ''@''"
    and q: "quiet follow"
    and cur: "current d = before @ drop k (render r0) @ follow" and off: "offset d = length before"
  shows "skipPartialRecord d =
     (case skipLoop (current d) (offset d) (length (current d) - offset d)
              (offset d + (length (render r0) - k)) of
        None \<Rightarrow> Inr (False, d)
      | Some first \<Rightarrow> Inr (True, advance (first - offset d) d))"
proof -
  let ?ls = "[line1 r0, line2 r0, line3 r0, line4 r0]"
  have "k < length (unlinesNL ?ls)"
    using k(2) unfolding render_lines .
  from drop_unlinesNL [OF this] obtain i k' where
    i0: "i < length ?ls" and k': "k' \<le> length (?ls ! i)"
    and keq: "k = length (unlinesNL (take i ?ls)) + k'"
    and dr0: "drop k (unlinesNL ?ls) = drop k' (?ls ! i) @ NL # unlinesNL (drop (Suc i) ?ls)"
    by blast
  have i: "i < 4" using i0 by simp
  have dr: "drop k (render r0) = drop k' (?ls ! i) @ NL # unlinesNL (drop (Suc i) ?ls)"
    using dr0 unfolding render_lines .
  have "i = 0 \<longrightarrow> byteAt (drop k' (line1 r0)) 0 \<noteq> CHR ''@''"
  proof
    assume i0: "i = 0"
    then have "k' = k" using keq by simp
    with k(1) k' i0 noAt show "byteAt (drop k' (line1 r0)) 0 \<noteq> CHR ''@''"
      by (intro header_tail_no_at) simp_all
  qed
  from inert_partial [OF wf q i k' this]
  have inert: "inertLines (drop k' (?ls ! i) # drop (Suc i) ?ls) follow" .
  have cur': "current d = before @ unlinesNL (drop k' (?ls ! i) # drop (Suc i) ?ls) @ follow"
    by (simp add: cur dr)
  have "length (unlinesNL (drop k' (?ls ! i) # drop (Suc i) ?ls)) = length (drop k (render r0))"
    by (simp add: dr)
  then have len: "length (unlinesNL (drop k' (?ls ! i) # drop (Suc i) ?ls)) = length (render r0) - k"
    by simp
  from skipPartialRecord_walk [OF inert cur' off] show ?thesis
    unfolding len .
qed

subsection \<open>C1: the cursor after boundary recovery\<close>

text \<open>
  Claim C1, as the code has it. The buffer holds, from the cursor on, the bytes of a
  well-formed record \<open>r0\<close> from its byte \<open>k\<close> on, then \<open>follow\<close>; the base line of a well-formed
  record is over \<open>A C G T N a c g t\<close>, and the byte at the cursor is not an \<open>'@'\<close> inside the
  identifier of \<open>r0\<close>. If \<open>k = 0\<close> the cursor stays on \<open>r0\<close>. If \<open>k > 0\<close> and \<open>follow\<close> begins with
  the first two lines and the \<open>'+'\<close> of a well-formed record \<open>r1\<close>, \<open>skipPartialRecord\<close> returns
  true with the cursor on the first byte of \<open>r1\<close>. If \<open>k > 0\<close> and the buffer ends before that
  \<open>'+'\<close>, it returns false and leaves the cursor where it was.
\<close>

theorem skipPartialRecord_finds_next_record:
  assumes wf: "wellFormedRecord r0" "wellFormedRecord r1"
    and k: "k < length (render r0)"
    and noAt: "0 < k \<and> k \<le> length (header r0) \<longrightarrow> header r0 ! (k - 1) \<noteq> CHR ''@''"
    and cur: "current d = before @ drop k (render r0) @ follow"
    and off: "offset d = length before"
  shows "(k = 0 \<longrightarrow> skipPartialRecord d = Inr (True, d)) \<and>
         (0 < k \<and> follow = throughPlus r1 @ beyond \<longrightarrow>
            skipPartialRecord d = Inr (True, advance (length (render r0) - k) d)) \<and>
         (0 < k \<and> j < length (throughPlus r1) \<and> follow = take j (throughPlus r1) \<longrightarrow>
            skipPartialRecord d = Inr (False, d))"
proof (intro conjI impI)
  assume "k = 0"
  with cur have "current d = before @ render r0 @ follow" by simp
  from skipPartialRecord_at_start [OF wf(1) this off]
  show "skipPartialRecord d = Inr (True, d)" .
next
  assume a: "0 < k \<and> follow = throughPlus r1 @ beyond"
  then have q: "quiet follow" by (simp add: quiet_throughPlus)
  have inside: "skipPartialRecord d =
     (case skipLoop (current d) (offset d) (length (current d) - offset d)
              (offset d + (length (render r0) - k)) of
        None \<Rightarrow> Inr (False, d)
      | Some first \<Rightarrow> Inr (True, advance (first - offset d) d))"
    using skipPartialRecord_inside [OF wf(1) _ k _ q cur off] a noAt by simp
  have m: "current d = (before @ drop k (render r0)) @ throughPlus r1 @ beyond"
    using a by (simp add: cur)
  have "skipLoop (current d) (offset d) (length (current d) - offset d)
          (length (before @ drop k (render r0))) = Some (length (before @ drop k (render r0)))"
    by (rule skipLoop_at_record [OF wf(2) m]) (simp_all add: off cur)
  then have "skipLoop (current d) (offset d) (length (current d) - offset d)
          (offset d + (length (render r0) - k)) = Some (offset d + (length (render r0) - k))"
    by (simp add: off)
  with inside show "skipPartialRecord d = Inr (True, advance (length (render r0) - k) d)"
    by simp
next
  assume a: "0 < k \<and> j < length (throughPlus r1) \<and> follow = take j (throughPlus r1)"
  then have q: "quiet follow" by (simp add: quiet_take_throughPlus)
  have inside: "skipPartialRecord d =
     (case skipLoop (current d) (offset d) (length (current d) - offset d)
              (offset d + (length (render r0) - k)) of
        None \<Rightarrow> Inr (False, d)
      | Some first \<Rightarrow> Inr (True, advance (first - offset d) d))"
    using skipPartialRecord_inside [OF wf(1) _ k _ q cur off] a noAt by simp
  have m: "current d = (before @ drop k (render r0)) @ take j (throughPlus r1)"
    using a by (simp add: cur)
  have "skipLoop (current d) (offset d) (length (current d) - offset d)
          (length (before @ drop k (render r0))) = None"
    using a by (intro skipLoop_at_cut [OF wf(2) m]) (simp_all add: off cur)
  then have "skipLoop (current d) (offset d) (length (current d) - offset d)
          (offset d + (length (render r0) - k)) = None"
    by (simp add: off)
  with inside show "skipPartialRecord d = Inr (False, d)"
    by simp
qed

text \<open>A byte source with one batch in memory and the cursor at its start.\<close>

definition source :: "char list \<Rightarrow> DataReader" where
  "source bytes = \<lparr>current = bytes, offset = 0, later = [], batchNumber = 0\<rparr>"

text \<open>
  The record grammar of the spec (section 6): four lines ended by a line feed, with or
  without a carriage return before it; the first begins with \<open>'@'\<close>, the second is a
  non-empty run of base symbols, the third begins with \<open>'+'\<close>, the fourth is a run of
  printable bytes as long as the second. \<open>completeRecordAt mem p\<close>: such a record begins
  at \<open>p\<close> and ends inside \<open>mem\<close>.
\<close>

definition splitLine :: "char list \<Rightarrow> (char list \<times> char list) option" where
  "splitLine xs =
     (if NL \<in> set xs
      then Some (takeWhile (\<lambda>c. c \<noteq> NL) xs, tl (dropWhile (\<lambda>c. c \<noteq> NL) xs))
      else None)"

definition stripCR :: "char list \<Rightarrow> char list" where
  "stripCR l = (if l \<noteq> [] \<and> last l = CR then butlast l else l)"

definition completeRecordAt :: "char list \<Rightarrow> nat \<Rightarrow> bool" where
  "completeRecordAt mem p =
     (case splitLine (drop p mem) of None \<Rightarrow> False | Some (l1, m1) \<Rightarrow>
     (case splitLine m1 of None \<Rightarrow> False | Some (l2, m2) \<Rightarrow>
     (case splitLine m2 of None \<Rightarrow> False | Some (l3, m3) \<Rightarrow>
     (case splitLine m3 of None \<Rightarrow> False | Some (l4, m4) \<Rightarrow>
        byteAt l1 0 = CHR ''@'' \<and>
        stripCR l2 \<noteq> [] \<and> list_all supportedBaseSymbol (stripCR l2) \<and>
        byteAt l3 0 = CHR ''+'' \<and>
        length (stripCR l4) = length (stripCR l2) \<and> list_all printable (stripCR l4)))))"

text \<open>Records and buffers for the worked examples.\<close>

definition firstSample :: fastqRecord where
  "firstSample = \<lparr>header = ''r1'', bases = ''ACGT'', marker = [], qualities = ''@III'', crlf = False\<rparr>"

definition secondSample :: fastqRecord where
  "secondSample = \<lparr>header = ''r2 x'', bases = ''NNgt'', marker = ''r2'', qualities = ''####'', crlf = True\<rparr>"

definition cutWindow :: "char list" where
  "cutWindow = ''II'' @ [NL] @ ''@r2'' @ [NL] @ ''ACGT'' @ [NL] @ ''+'' @ [NL] @ ''II''"

definition ambiguityWindow :: "char list" where
  "ambiguityWindow = ''II'' @ [NL] @ ''@r2'' @ [NL] @ ''ACGR'' @ [NL] @ ''+'' @ [NL] @ ''IIII'' @ [NL]"

definition atSample :: fastqRecord where
  "atSample = \<lparr>header = ''a@b'', bases = ''ACGT'', marker = [], qualities = ''IIII'', crlf = False\<rparr>"

definition atWindow :: "char list" where
  "atWindow = render atSample @ render firstSample"

lemma splitLine_line:
  "NL \<notin> set l \<Longrightarrow> splitLine (l @ NL # rest) = Some (l, rest)"
proof -
  assume n: "NL \<notin> set l"
  then have "takeWhile (\<lambda>c. c \<noteq> NL) (l @ NL # rest) = l"
    by (induction l) auto
  moreover from n have "dropWhile (\<lambda>c. c \<noteq> NL) (l @ NL # rest) = NL # rest"
    by (induction l) auto
  ultimately show ?thesis
    by (simp add: splitLine_def)
qed

lemma stripCR_eol:
  assumes "CR \<notin> set xs"
  shows "stripCR (xs @ eol r) = xs"
proof (cases "crlf r")
  case True
  then show ?thesis by (simp add: stripCR_def eol_def)
next
  case False
  show ?thesis
  proof (cases "xs = []")
    case True
    with False show ?thesis by (simp add: stripCR_def eol_def)
  next
    case nonempty: False
    then have "last xs \<in> set xs" by simp
    with assms have "last xs \<noteq> CR" by auto
    with False nonempty show ?thesis by (simp add: stripCR_def eol_def)
  qed
qed

lemma render_is_complete:
  assumes wf: "wellFormedRecord r"
  shows "completeRecordAt (pre @ render r @ rest) (length pre)"
proof -
  note nl = wf_lines [OF wf]
  have g: "bases r \<noteq> []" "length (qualities r) = length (bases r)"
    "list_all printable (qualities r)" "list_all skippedAsBase (bases r)"
    using wf unfolding wellFormedRecord_def by blast+
  have "\<not> skippedAsBase CR" "\<not> printable CR"
    by (simp_all add: skippedAsBase_def printable_def)
  with g(3,4) have b: "CR \<notin> set (bases r)" and q: "CR \<notin> set (qualities r)"
    unfolding list_all_iff by blast+
  have s: "list_all supportedBaseSymbol (bases r)"
    using g(4) skippedAsBase_supported unfolding list_all_iff by blast
  have d: "drop (length pre) (pre @ render r @ rest)
      = line1 r @ NL # (line2 r @ NL # (line3 r @ NL # (line4 r @ NL # rest)))"
    by (simp add: render_lines)
  have s1: "splitLine (line1 r @ NL # (line2 r @ NL # (line3 r @ NL # (line4 r @ NL # rest))))
      = Some (line1 r, line2 r @ NL # (line3 r @ NL # (line4 r @ NL # rest)))"
    by (rule splitLine_line [OF nl(1)])
  have s2: "splitLine (line2 r @ NL # (line3 r @ NL # (line4 r @ NL # rest)))
      = Some (line2 r, line3 r @ NL # (line4 r @ NL # rest))"
    by (rule splitLine_line [OF nl(2)])
  have s3: "splitLine (line3 r @ NL # (line4 r @ NL # rest)) = Some (line3 r, line4 r @ NL # rest)"
    by (rule splitLine_line [OF nl(3)])
  have s4: "splitLine (line4 r @ NL # rest) = Some (line4 r, rest)"
    by (rule splitLine_line [OF nl(4)])
  have e2: "stripCR (line2 r) = bases r" and e4: "stripCR (line4 r) = qualities r"
    unfolding line2_def line4_def by (rule stripCR_eol [OF b], rule stripCR_eol [OF q])
  have f: "byteAt (line1 r) 0 = CHR ''@''" "byteAt (line3 r) 0 = CHR ''+''"
    by (simp_all add: line1_def line3_def)
  show ?thesis
    unfolding completeRecordAt_def d s1 s2 s3 s4 option.case prod.case e2 e4
    using f g(1,2,3) s by simp
qed

theorem skipPartialRecord_finds_next_record_witness:
  "wellFormedRecord firstSample \<and> wellFormedRecord secondSample \<and>
   skipPartialRecord (source (render firstSample @ ''II''))
     = Inr (True, source (render firstSample @ ''II'')) \<and>
   skipPartialRecord (source (drop 11 (render firstSample) @ throughPlus secondSample @ ''II''))
     = Inr (True, advance 5 (source (drop 11 (render firstSample) @ throughPlus secondSample @ ''II''))) \<and>
   skipPartialRecord (source (drop 11 (render firstSample) @ take 9 (throughPlus secondSample)))
     = Inr (False, source (drop 11 (render firstSample) @ take 9 (throughPlus secondSample)))"
proof -
  have wf: "wellFormedRecord firstSample" "wellFormedRecord secondSample"
    by code_simp+
  have len: "length (render firstSample) = 16" "length (throughPlus secondSample) = 14"
    by code_simp+
  have h: "header firstSample = ''r1''"
    by (simp add: firstSample_def)
  have a: "skipPartialRecord (source (render firstSample @ ''II''))
     = Inr (True, source (render firstSample @ ''II''))"
    using skipPartialRecord_finds_next_record
      [where ?r0.0 = firstSample and ?r1.0 = secondSample and k = 0 and before = "[]"
         and follow = "''II''" and d = "source (render firstSample @ ''II'')"
         and beyond = "[]" and j = 0]
      wf len
    by (simp add: source_def)
  have b: "skipPartialRecord (source (drop 11 (render firstSample) @ throughPlus secondSample @ ''II''))
     = Inr (True, advance 5 (source (drop 11 (render firstSample) @ throughPlus secondSample @ ''II'')))"
    using skipPartialRecord_finds_next_record
      [where ?r0.0 = firstSample and ?r1.0 = secondSample and k = 11 and before = "[]"
         and follow = "throughPlus secondSample @ ''II''"
         and d = "source (drop 11 (render firstSample) @ throughPlus secondSample @ ''II'')"
         and beyond = "''II''" and j = 0]
      wf len
    by (simp add: source_def h)
  have c: "skipPartialRecord (source (drop 11 (render firstSample) @ take 9 (throughPlus secondSample)))
     = Inr (False, source (drop 11 (render firstSample) @ take 9 (throughPlus secondSample)))"
    using skipPartialRecord_finds_next_record
      [where ?r0.0 = firstSample and ?r1.0 = secondSample and k = 11 and before = "[]"
         and follow = "take 9 (throughPlus secondSample)"
         and d = "source (drop 11 (render firstSample) @ take 9 (throughPlus secondSample))"
         and beyond = "[]" and j = 9]
      wf len
    by (simp add: source_def h)
  from wf a b c show ?thesis by simp
qed

text \<open>
  Three buffers on which the claim as the spec words it fails. \<open>cutWindow\<close> ends inside the
  quality line of its only record: the call returns true with the cursor on a record that
  is not complete in the buffer. \<open>ambiguityWindow\<close> holds a complete record whose bases
  include the ambiguity code \<open>R\<close>: the call returns false. In \<open>atWindow\<close> the cursor is on an
  \<open>'@'\<close> inside the identifier of the first record: the call returns true and leaves it
  there, 15 bytes before the next record.
\<close>

theorem boundary_recovery_counterexample:
  "skipPartialRecord (source cutWindow) = Inr (True, advance 3 (source cutWindow)) \<and>
   \<not> list_ex (completeRecordAt cutWindow) [0..<length cutWindow] \<and>
   skipPartialRecord (source ambiguityWindow) = Inr (False, source ambiguityWindow) \<and>
   completeRecordAt ambiguityWindow 3 \<and>
   skipPartialRecord (advance 2 (source atWindow)) = Inr (True, advance 2 (source atWindow)) \<and>
   wellFormedRecord atSample \<and> length (render atSample) = 17"
  by code_simp

end
